theory Spec2Isabelle
  imports Complex_Main "HOL-Library.Word"
begin

section \<open>The Arabic name normalizer mediator\<close>

text \<open>
  A shallow embedding of the name normalizer service (the JavaScript mediator with
  \<^verbatim>\<open>removeDiacritics\<close>, \<^verbatim>\<open>arabicSoundex\<close>, \<^verbatim>\<open>normalizeArabicName\<close>,
  \<^verbatim>\<open>normalizeEnglishName\<close>, the \<^verbatim>\<open>/soundex\<close> and \<^verbatim>\<open>/compare\<close> handlers and
  \<^verbatim>\<open>jaroWinkler\<close>).

  A JavaScript string is a sequence of UTF-16 code units; indexing, \<^verbatim>\<open>length\<close>,
  \<^verbatim>\<open>startsWith\<close>, \<^verbatim>\<open>substring\<close>, \<^verbatim>\<open>===\<close> and a regular expression without the
  \<^verbatim>\<open>u\<close> flag all work on code units. So a string is a list of 16-bit words.
  Numbers that hold lengths and indices are \<open>nat\<close> or \<open>int\<close>. The similarity score is a
  double; it is modelled twice over the same search: \<open>jaroWinkler\<close> computes it in exact
  real arithmetic, and \<open>jaroWinklerRounded\<close> rounds the result of every floating-point
  operation with a rounding function \<open>rnd\<close>, a parameter.
\<close>

type_synonym jstring = "16 word list"

text \<open>The only exception the modelled functions can raise, and the three ways a handler can end.\<close>

datatype error = TypeError

datatype 'a outcome = Returns 'a | Throws error | Diverges

subsection \<open>Lookup tables\<close>

text \<open>The character class of the regular expression \<^verbatim>\<open>ARABIC_DIACRITICS\<close>: the code units
  064B to 065F, and 0670.\<close>

definition ARABIC_DIACRITICS :: "16 word \<Rightarrow> bool" where
  "ARABIC_DIACRITICS c = ((0x064B \<le> c \<and> c \<le> 0x065F) \<or> c = 0x0670)"

text \<open>The tables are object literals; \<^verbatim>\<open>Object.entries\<close> lists their (non-numeric) keys in
  declaration order, so each is an association list in that order.\<close>

definition ARABIC_NORMALIZATIONS :: "(16 word \<times> 16 word) list" where
  "ARABIC_NORMALIZATIONS =
    [(0x0622, 0x0627), (0x0623, 0x0627), (0x0625, 0x0627), (0x0671, 0x0627),
     (0x0629, 0x0647),
     (0x0649, 0x064A),
     (0x0624, 0x0648),
     (0x0626, 0x064A)]"

definition PREFIXES :: "(jstring \<times> jstring) list" where
  "PREFIXES =
    [([0x0627, 0x0644], []),
     ([0x0639, 0x0628, 0x062F, 0x0020, 0x0627, 0x0644], [0x0639, 0x0628, 0x062F, 0x0627, 0x0644]),
     ([0x0639, 0x0628, 0x062F, 0x0627, 0x0644], [0x0639, 0x0628, 0x062F, 0x0627, 0x0644]),
     ([0x0627, 0x0628, 0x0648, 0x0020], [0x0627, 0x0628, 0x0648]),
     ([0x0623, 0x0628, 0x0648, 0x0020], [0x0627, 0x0628, 0x0648]),
     ([0x0627, 0x0628, 0x0646, 0x0020], [0x0627, 0x0628, 0x0646]),
     ([0x0628, 0x0646, 0x0020], [0x0628, 0x0646]),
     ([0x0627, 0x0645, 0x0020], [0x0627, 0x0645]),
     ([0x0623, 0x0645, 0x0020], [0x0627, 0x0645])]"

text \<open>The Latin table, keys \<^verbatim>\<open>al-\<close>, \<^verbatim>\<open>al \<close>, \<^verbatim>\<open>el-\<close>, \<^verbatim>\<open>el \<close>, \<^verbatim>\<open>abd-\<close>, \<^verbatim>\<open>abd \<close>,
  \<^verbatim>\<open>abdel-\<close>, \<^verbatim>\<open>abdel \<close>, \<^verbatim>\<open>abdul-\<close>, \<^verbatim>\<open>abdul \<close>, \<^verbatim>\<open>abu-\<close>, \<^verbatim>\<open>abu \<close>, \<^verbatim>\<open>ibn-\<close>,
  \<^verbatim>\<open>ibn \<close>, \<^verbatim>\<open>bin-\<close>, \<^verbatim>\<open>bin \<close>, as code units.\<close>

definition ENGLISH_PREFIXES :: "(jstring \<times> jstring) list" where
  "ENGLISH_PREFIXES =
    [([0x61, 0x6C, 0x2D], []),
     ([0x61, 0x6C, 0x20], []),
     ([0x65, 0x6C, 0x2D], []),
     ([0x65, 0x6C, 0x20], []),
     ([0x61, 0x62, 0x64, 0x2D], [0x61, 0x62, 0x64]),
     ([0x61, 0x62, 0x64, 0x20], [0x61, 0x62, 0x64]),
     ([0x61, 0x62, 0x64, 0x65, 0x6C, 0x2D], [0x61, 0x62, 0x64, 0x65, 0x6C]),
     ([0x61, 0x62, 0x64, 0x65, 0x6C, 0x20], [0x61, 0x62, 0x64, 0x65, 0x6C]),
     ([0x61, 0x62, 0x64, 0x75, 0x6C, 0x2D], [0x61, 0x62, 0x64, 0x75, 0x6C]),
     ([0x61, 0x62, 0x64, 0x75, 0x6C, 0x20], [0x61, 0x62, 0x64, 0x75, 0x6C]),
     ([0x61, 0x62, 0x75, 0x2D], [0x61, 0x62, 0x75]),
     ([0x61, 0x62, 0x75, 0x20], [0x61, 0x62, 0x75]),
     ([0x69, 0x62, 0x6E, 0x2D], [0x69, 0x62, 0x6E]),
     ([0x69, 0x62, 0x6E, 0x20], [0x69, 0x62, 0x6E]),
     ([0x62, 0x69, 0x6E, 0x2D], [0x62, 0x69, 0x6E]),
     ([0x62, 0x69, 0x6E, 0x20], [0x62, 0x69, 0x6E])]"

text \<open>\<^verbatim>\<open>ARABIC_SOUNDEX[char]\<close>: the digit of a letter, \<open>None\<close> for \<^verbatim>\<open>undefined\<close>.
  The digits are the code units \<open>0x31\<close> to \<open>0x39\<close>.\<close>

definition ARABIC_SOUNDEX :: "16 word \<Rightarrow> 16 word option" where
  "ARABIC_SOUNDEX = map_of
    [(0x0628, 0x31), (0x0641, 0x31), (0x0648, 0x31),
     (0x062C, 0x32), (0x0632, 0x32), (0x0633, 0x32), (0x0634, 0x32), (0x0635, 0x32),
     (0x0636, 0x32), (0x0638, 0x32),
     (0x062F, 0x33), (0x0630, 0x33), (0x062A, 0x33), (0x0637, 0x33), (0x062B, 0x33),
     (0x0644, 0x34),
     (0x0645, 0x35), (0x0646, 0x35),
     (0x0631, 0x36),
     (0x0642, 0x37), (0x0643, 0x37), (0x063A, 0x37), (0x062E, 0x37),
     (0x0647, 0x38), (0x062D, 0x38), (0x0639, 0x38), (0x0621, 0x38), (0x0623, 0x38),
     (0x064A, 0x39)]"

subsection \<open>String primitives of the runtime\<close>

text \<open>The class \<^verbatim>\<open>\s\<close> of a regular expression, which is also what \<^verbatim>\<open>trim\<close> strips:
  the white space and line terminator code units of ECMAScript.\<close>

definition isWhitespace :: "16 word \<Rightarrow> bool" where
  "isWhitespace c =
    (c = 0x0009 \<or> c = 0x000A \<or> c = 0x000B \<or> c = 0x000C \<or> c = 0x000D \<or> c = 0x0020 \<or>
     c = 0x00A0 \<or> c = 0x1680 \<or> (0x2000 \<le> c \<and> c \<le> 0x200A) \<or> c = 0x2028 \<or> c = 0x2029 \<or>
     c = 0x202F \<or> c = 0x205F \<or> c = 0x3000 \<or> c = 0xFEFF)"

text \<open>\<^verbatim>\<open>s.startsWith(p)\<close>.\<close>

definition startsWith :: "jstring \<Rightarrow> jstring \<Rightarrow> bool" where
  "startsWith s p = (take (length p) s = p)"

text \<open>\<^verbatim>\<open>s.substring(n)\<close> for \<open>0 \<le> n\<close>.\<close>

definition substring :: "jstring \<Rightarrow> nat \<Rightarrow> jstring" where
  "substring s n = drop n s"

text \<open>\<^verbatim>\<open>s.replace(/\s+/g, ' ')\<close>: every maximal run of white space becomes one space.\<close>

function collapseWhitespace :: "jstring \<Rightarrow> jstring" where
  "collapseWhitespace [] = []"
| "collapseWhitespace (c # cs) =
     (if isWhitespace c then 0x0020 # collapseWhitespace (dropWhile isWhitespace cs)
      else c # collapseWhitespace cs)"
  by pat_completeness auto
termination
  by (relation "measure length") (auto simp: le_imp_less_Suc length_dropWhile_le)

text \<open>\<^verbatim>\<open>s.trim()\<close>.\<close>

definition trim :: "jstring \<Rightarrow> jstring" where
  "trim s = rev (dropWhile isWhitespace (rev (dropWhile isWhitespace s)))"

text \<open>\<^verbatim>\<open>s.split(sep)\<close> for a separator of one code unit: the result is never empty,
  and \<^verbatim>\<open>''.split(' ')\<close> is \<^verbatim>\<open>['']\<close>.\<close>

fun split :: "jstring \<Rightarrow> 16 word \<Rightarrow> jstring list" where
  "split [] sep = [[]]"
| "split (c # cs) sep =
     (if c = sep then [] # split cs sep
      else (case split cs sep of [] \<Rightarrow> [[c]] | p # ps \<Rightarrow> (c # p) # ps))"

text \<open>\<^verbatim>\<open>parts.join(sep)\<close> for a separator of one code unit.\<close>

fun join :: "jstring list \<Rightarrow> 16 word \<Rightarrow> jstring" where
  "join [] sep = []"
| "join [p] sep = p"
| "join (p # q # ps) sep = p @ sep # join (q # ps) sep"

text \<open>\<^verbatim>\<open>s.charAt(0)\<close> (the empty string when \<open>s\<close> is empty) and \<^verbatim>\<open>s.slice(1)\<close>.\<close>

definition charAt0 :: "jstring \<Rightarrow> jstring" where
  "charAt0 s = take 1 s"

definition slice1 :: "jstring \<Rightarrow> jstring" where
  "slice1 s = drop 1 s"

subsection \<open>Diacritics, letters and prefixes\<close>

text \<open>\<^verbatim>\<open>text.replace(ARABIC_DIACRITICS, '')\<close>.\<close>

definition removeDiacritics :: "jstring \<Rightarrow> jstring" where
  "removeDiacritics text = filter (\<lambda>c. \<not> ARABIC_DIACRITICS c) text"

text \<open>One turn of the loop of \<^verbatim>\<open>normalizeArabicLetters\<close>:
  \<^verbatim>\<open>normalized.replace(new RegExp(from, 'g'), to)\<close>, where \<open>from\<close> is one code unit that is
  no metacharacter.\<close>

definition replaceAll :: "16 word \<Rightarrow> 16 word \<Rightarrow> jstring \<Rightarrow> jstring" where
  "replaceAll from to normalized = map (\<lambda>c. if c = from then to else c) normalized"

fun lettersLoop :: "(16 word \<times> 16 word) list \<Rightarrow> jstring \<Rightarrow> jstring" where
  "lettersLoop [] normalized = normalized"
| "lettersLoop ((from, to) # entries) normalized = lettersLoop entries (replaceAll from to normalized)"

definition normalizeArabicLetters :: "jstring \<Rightarrow> jstring" where
  "normalizeArabicLetters text = lettersLoop ARABIC_NORMALIZATIONS text"

text \<open>The loop shared by \<^verbatim>\<open>normalizeArabicPrefixes\<close> and \<^verbatim>\<open>normalizeEnglishPrefixes\<close>:
  \<^verbatim>\<open>for (const [prefix, replacement] of Object.entries(T))
    if (normalized.startsWith(prefix))
      normalized = replacement + normalized.substring(prefix.length);\<close>\<close>

fun prefixLoop :: "(jstring \<times> jstring) list \<Rightarrow> jstring \<Rightarrow> jstring" where
  "prefixLoop [] normalized = normalized"
| "prefixLoop ((prefix, replacement) # entries) normalized =
     (if startsWith normalized prefix
      then prefixLoop entries (replacement @ substring normalized (length prefix))
      else prefixLoop entries normalized)"

definition normalizeArabicPrefixes :: "jstring \<Rightarrow> jstring" where
  "normalizeArabicPrefixes text = prefixLoop PREFIXES text"

text \<open>\<^verbatim>\<open>toLowerCase\<close> and \<^verbatim>\<open>toUpperCase\<close> are the runtime's Unicode case mappings, on
  whole strings; they are not code of the service. The functions that call them take
  them as the parameters \<open>toLowerCase\<close> and \<open>toUpperCase\<close>.\<close>

definition normalizeEnglishPrefixes :: "(jstring \<Rightarrow> jstring) \<Rightarrow> jstring \<Rightarrow> jstring" where
  "normalizeEnglishPrefixes toLowerCase text = prefixLoop ENGLISH_PREFIXES (toLowerCase text)"

subsection \<open>The phonetic code\<close>

text \<open>The \<^verbatim>\<open>for\<close> loop of \<^verbatim>\<open>arabicSoundex\<close> over the code units after the first, with
  the state \<open>soundex\<close> and \<open>lastCode\<close>. \<open>lastCode\<close> is \<open>None\<close> for the empty string, with
  which no digit is equal.\<close>

fun soundexLoop :: "jstring \<Rightarrow> jstring \<Rightarrow> 16 word option \<Rightarrow> jstring" where
  "soundexLoop [] soundex lastCode = soundex"
| "soundexLoop (char # rest) soundex lastCode =
     (if length soundex < 6 then
        (case ARABIC_SOUNDEX char of
           None \<Rightarrow> soundexLoop rest soundex lastCode
         | Some code \<Rightarrow>
             if Some code \<noteq> lastCode then soundexLoop rest (soundex @ [code]) (Some code)
             else soundexLoop rest soundex lastCode)
      else soundex)"

text \<open>\<^verbatim>\<open>while (soundex.length < 6) soundex += '0'\<close>.\<close>

function padZeros :: "jstring \<Rightarrow> jstring" where
  "padZeros soundex = (if length soundex < 6 then padZeros (soundex @ [0x30]) else soundex)"
  by pat_completeness auto
termination
  by (relation "measure (\<lambda>soundex. 6 - length soundex)") auto

declare padZeros.simps [simp del]

text \<open>\<^verbatim>\<open>arabicSoundex\<close>. When the text is not empty but nothing is left of it after
  \<^verbatim>\<open>removeDiacritics\<close>, \<^verbatim>\<open>normalized[0]\<close> is \<^verbatim>\<open>undefined\<close>, so is \<open>soundex\<close>, the
  \<^verbatim>\<open>for\<close> loop does not run (\<^verbatim>\<open>1 < 0\<close> fails first), and \<^verbatim>\<open>soundex.length\<close> in the
  \<^verbatim>\<open>while\<close> condition raises a TypeError.\<close>

definition arabicSoundex :: "jstring \<Rightarrow> error + jstring" where
  "arabicSoundex text =
     (if text = [] then Inr []
      else (case normalizeArabicLetters (removeDiacritics text) of
              [] \<Rightarrow> Inl TypeError
            | firstLetter # rest \<Rightarrow>
                Inr (padZeros (soundexLoop rest [firstLetter] (ARABIC_SOUNDEX firstLetter)))))"

subsection \<open>Normalized names\<close>

text \<open>The objects that \<^verbatim>\<open>normalizeArabicName\<close> returns: \<^verbatim>\<open>{ original, normalized, soundex,
  parts }\<close>, each part an object \<^verbatim>\<open>{ original, soundex }\<close>.\<close>

record arabicPart =
  part_original :: jstring
  part_soundex :: jstring

record arabicName =
  original :: jstring
  normalized :: jstring
  soundex :: jstring
  parts :: "arabicPart list"

text \<open>The object that \<^verbatim>\<open>normalizeEnglishName\<close> returns: \<^verbatim>\<open>{ original, normalized, parts }\<close>,
  the parts plain strings.\<close>

record englishName =
  en_original :: jstring
  en_normalized :: jstring
  en_parts :: "jstring list"

text \<open>\<^verbatim>\<open>normalized.split(' ').map(part => ({ original: part, soundex: arabicSoundex(part) }))\<close>:
  the first call that throws ends the map.\<close>

fun partsLoop :: "jstring list \<Rightarrow> error + arabicPart list" where
  "partsLoop [] = Inr []"
| "partsLoop (part # rest) =
     (case arabicSoundex part of
        Inl e \<Rightarrow> Inl e
      | Inr code \<Rightarrow>
          (case partsLoop rest of
             Inl e \<Rightarrow> Inl e
           | Inr ps \<Rightarrow> Inr (\<lparr>part_original = part, part_soundex = code\<rparr> # ps)))"

definition normalizeArabicName :: "jstring \<Rightarrow> error + arabicName" where
  "normalizeArabicName name =
     (if name = [] then Inr \<lparr>original = [], normalized = [], soundex = [], parts = []\<rparr>
      else
        let normalized1 = removeDiacritics name;
            normalized2 = normalizeArabicLetters normalized1;
            normalized3 = normalizeArabicPrefixes normalized2;
            normalized4 = trim (collapseWhitespace normalized3)
        in (case partsLoop (split normalized4 0x0020) of
              Inl e \<Rightarrow> Inl e
            | Inr ps \<Rightarrow>
                (case arabicSoundex (filter (\<lambda>c. \<not> isWhitespace c) normalized4) of
                   Inl e \<Rightarrow> Inl e
                 | Inr fullSoundex \<Rightarrow>
                     Inr \<lparr>original = name, normalized = normalized4, soundex = fullSoundex,
                          parts = ps\<rparr>)))"

definition normalizeEnglishName ::
  "(jstring \<Rightarrow> jstring) \<Rightarrow> (jstring \<Rightarrow> jstring) \<Rightarrow> jstring \<Rightarrow> englishName" where
  "normalizeEnglishName toLowerCase toUpperCase name =
     (if name = [] then \<lparr>en_original = [], en_normalized = [], en_parts = []\<rparr>
      else
        let normalized1 = normalizeEnglishPrefixes toLowerCase name;
            normalized2 = trim (collapseWhitespace normalized1);
            normalized3 =
              join (map (\<lambda>part. toUpperCase (charAt0 part) @ slice1 part) (split normalized2 0x0020))
                0x0020
        in \<lparr>en_original = name, en_normalized = normalized3, en_parts = split normalized3 0x0020\<rparr>)"

subsection \<open>Script detection and the soundex handler\<close>

text \<open>The test of the regular expression for the code units 0600 to 06FF on a name.\<close>

definition isArabic :: "jstring \<Rightarrow> bool" where
  "isArabic name = list_ex (\<lambda>c. 0x0600 \<le> c \<and> c \<le> 0x06FF) name"

datatype normalizedName = Arabic arabicName | English englishName

text \<open>The handler of \<^verbatim>\<open>GET /soundex/:name\<close>, from the decoded name on.\<close>

definition soundexHandler ::
  "(jstring \<Rightarrow> jstring) \<Rightarrow> (jstring \<Rightarrow> jstring) \<Rightarrow> jstring \<Rightarrow> error + normalizedName" where
  "soundexHandler toLowerCase toUpperCase name =
     (if isArabic name then
        (case normalizeArabicName name of Inl e \<Rightarrow> Inl e | Inr result \<Rightarrow> Inr (Arabic result))
      else Inr (English (normalizeEnglishName toLowerCase toUpperCase name)))"

fun normalizedOf :: "normalizedName \<Rightarrow> jstring" where
  "normalizedOf (Arabic result) = normalized result"
| "normalizedOf (English result) = en_normalized result"

subsection \<open>The similarity score\<close>

text \<open>The inner loop of the match search,
  \<^verbatim>\<open>for (j = start; j < end; j++) { if (s2Matches[j] || s1[i] !== s2[j]) continue; ...; break; }\<close>,
  over the indices from \<open>start\<close> to \<open>end - 1\<close>, for the code unit \<open>c = s1[i]\<close>: the index
  \<open>j\<close> at which it breaks, if it does. \<open>m2\<close> is the array \<^verbatim>\<open>s2Matches\<close>.\<close>

fun findMatch :: "jstring \<Rightarrow> bool list \<Rightarrow> 16 word \<Rightarrow> nat list \<Rightarrow> nat option" where
  "findMatch s2 m2 c [] = None"
| "findMatch s2 m2 c (j # js) =
     (if m2 ! j \<or> c \<noteq> s2 ! j then findMatch s2 m2 c js else Some j)"

record matchState =
  s1Matches :: "bool list"
  s2Matches :: "bool list"
  matches :: nat

text \<open>The window of index \<open>i\<close>: \<^verbatim>\<open>start = Math.max(0, i - matchWindow)\<close> and
  \<^verbatim>\<open>end = Math.min(len2, i + matchWindow + 1)\<close>. \<open>matchWindow\<close> is \<open>-1\<close> when both
  strings have one code unit, so it is an \<open>int\<close>; \<open>start\<close> and \<open>end\<close> are never negative.\<close>

definition windowStart :: "int \<Rightarrow> nat \<Rightarrow> nat" where
  "windowStart matchWindow i = nat (max 0 (int i - matchWindow))"

definition windowEnd :: "int \<Rightarrow> nat \<Rightarrow> nat \<Rightarrow> nat" where
  "windowEnd matchWindow len2 i = nat (min (int len2) (int i + matchWindow + 1))"

text \<open>One turn of the outer loop of the match search, for the index \<open>i\<close> of \<open>s1\<close>.\<close>

definition matchStep :: "jstring \<Rightarrow> jstring \<Rightarrow> int \<Rightarrow> matchState \<Rightarrow> nat \<Rightarrow> matchState" where
  "matchStep s1 s2 matchWindow st i =
     (case findMatch s2 (s2Matches st) (s1 ! i)
             [windowStart matchWindow i ..< windowEnd matchWindow (length s2) i] of
        None \<Rightarrow> st
      | Some j \<Rightarrow>
          \<lparr>s1Matches = (s1Matches st)[i := True], s2Matches = (s2Matches st)[j := True],
           matches = matches st + 1\<rparr>)"

definition findMatches :: "jstring \<Rightarrow> jstring \<Rightarrow> int \<Rightarrow> matchState" where
  "findMatches s1 s2 matchWindow =
     foldl (matchStep s1 s2 matchWindow)
       \<lparr>s1Matches = replicate (length s1) False, s2Matches = replicate (length s2) False,
        matches = 0\<rparr>
       [0 ..< length s1]"

text \<open>\<^verbatim>\<open>while (!s2Matches[k]) k++\<close>, on the array \<open>m2\<close>. Past the end of the array \<^verbatim>\<open>s2Matches[k]\<close> is
  \<^verbatim>\<open>undefined\<close> for every \<open>k\<close>, so the loop never ends: the result is \<open>None\<close>.\<close>

function skipUnmatched :: "bool list \<Rightarrow> nat \<Rightarrow> nat option" where
  "skipUnmatched m2 k =
     (if length m2 \<le> k then None
      else if \<not> m2 ! k then skipUnmatched m2 (k + 1)
      else Some k)"
  by pat_completeness auto
termination
  by (relation "measure (\<lambda>(m2, k). length m2 - k)") auto

declare skipUnmatched.simps [simp del]

text \<open>One turn of the loop that counts transpositions, on the state \<open>(k, transpositions)\<close>;
  \<open>None\<close> once the inner loop does not end. \<open>m1\<close> and \<open>m2\<close> are the arrays
  \<^verbatim>\<open>s1Matches\<close> and \<^verbatim>\<open>s2Matches\<close>.\<close>

definition transpositionStep ::
  "jstring \<Rightarrow> jstring \<Rightarrow> bool list \<Rightarrow> bool list \<Rightarrow> (nat \<times> nat) option \<Rightarrow> nat \<Rightarrow> (nat \<times> nat) option" where
  "transpositionStep s1 s2 m1 m2 st i =
     (case st of
        None \<Rightarrow> None
      | Some (k, transpositions) \<Rightarrow>
          if \<not> m1 ! i then Some (k, transpositions)
          else (case skipUnmatched m2 k of
                  None \<Rightarrow> None
                | Some k' \<Rightarrow>
                    Some (k' + 1, if s1 ! i \<noteq> s2 ! k' then transpositions + 1 else transpositions)))"

definition countTranspositions ::
  "jstring \<Rightarrow> jstring \<Rightarrow> bool list \<Rightarrow> bool list \<Rightarrow> (nat \<times> nat) option" where
  "countTranspositions s1 s2 m1 m2 =
     foldl (transpositionStep s1 s2 m1 m2) (Some (0, 0)) [0 ..< length s1]"

text \<open>\<^verbatim>\<open>for (i = 0; i < Math.min(4, len1, len2); i++) { if (s1[i] === s2[i]) prefix++; else break; }\<close>\<close>

fun commonPrefix :: "jstring \<Rightarrow> jstring \<Rightarrow> nat list \<Rightarrow> nat \<Rightarrow> nat" where
  "commonPrefix s1 s2 [] prefix = prefix"
| "commonPrefix s1 s2 (i # is) prefix =
     (if s1 ! i = s2 ! i then commonPrefix s1 s2 is (prefix + 1) else prefix)"

text \<open>\<^verbatim>\<open>jaroWinkler\<close> with the score in exact arithmetic; \<open>None\<close> when it does not return.\<close>

definition jaroWinkler :: "jstring \<Rightarrow> jstring \<Rightarrow> real option" where
  "jaroWinkler s1 s2 =
     (if s1 = s2 then Some 1
      else if s1 = [] \<or> s2 = [] then Some 0
      else
        let len1 = length s1;
            len2 = length s2;
            matchWindow = int (max len1 len2 div 2) - 1;
            st = findMatches s1 s2 matchWindow
        in if matches st = 0 then Some 0
           else (case countTranspositions s1 s2 (s1Matches st) (s2Matches st) of
                   None \<Rightarrow> None
                 | Some (k, transpositions) \<Rightarrow>
                     let jaro = (real (matches st) / real len1 + real (matches st) / real len2 +
                                 (real (matches st) - real transpositions / 2) / real (matches st)) / 3;
                         prefix = commonPrefix s1 s2 [0 ..< min 4 (min len1 len2)] 0
                     in Some (jaro + real prefix * (1 / 10) * (1 - jaro))))"

text \<open>\<^verbatim>\<open>jaroWinkler\<close> with the score in floating point: the same search, and every division,
  subtraction, addition and multiplication of
  \<^verbatim>\<open>(matches / len1 + matches / len2 + (matches - transpositions / 2) / matches) / 3\<close> and
  of \<^verbatim>\<open>jaro + prefix * 0.1 * (1 - jaro)\<close> rounded by \<open>rnd\<close>, in the order the expressions
  are evaluated. The literal \<^verbatim>\<open>0.1\<close> is the rounded tenth. The counters and lengths are
  integers below \<open>2 ^ 53\<close>, which a double holds exactly.\<close>

definition jaroWinklerRounded :: "(real \<Rightarrow> real) \<Rightarrow> jstring \<Rightarrow> jstring \<Rightarrow> real option" where
  "jaroWinklerRounded rnd s1 s2 =
     (if s1 = s2 then Some 1
      else if s1 = [] \<or> s2 = [] then Some 0
      else
        let len1 = length s1;
            len2 = length s2;
            matchWindow = int (max len1 len2 div 2) - 1;
            st = findMatches s1 s2 matchWindow
        in if matches st = 0 then Some 0
           else (case countTranspositions s1 s2 (s1Matches st) (s2Matches st) of
                   None \<Rightarrow> None
                 | Some (k, transpositions) \<Rightarrow>
                     let jaro =
                           rnd (rnd (rnd (rnd (real (matches st) / real len1) +
                                          rnd (real (matches st) / real len2)) +
                                     rnd (rnd (real (matches st) - rnd (real transpositions / 2)) /
                                          real (matches st))) / 3);
                         prefix = commonPrefix s1 s2 [0 ..< min 4 (min len1 len2)] 0
                     in Some (rnd (jaro + rnd (rnd (real prefix * rnd (1 / 10)) * rnd (1 - jaro))))))"

subsection \<open>The compare handler\<close>

text \<open>The body that \<^verbatim>\<open>POST /compare\<close> answers with:
  \<^verbatim>\<open>{ name1, name2, soundexMatch, similarity, matchScore }\<close>.\<close>

record comparison =
  name1 :: arabicName
  name2 :: arabicName
  soundexMatch :: bool
  similarity :: real
  matchScore :: real

text \<open>The handler of \<^verbatim>\<open>POST /compare\<close>, from the two names of the request body on. Both
  names go through \<^verbatim>\<open>normalizeArabicName\<close>, whatever their script.\<close>

definition compare :: "jstring \<Rightarrow> jstring \<Rightarrow> comparison outcome" where
  "compare n1 n2 =
     (case normalizeArabicName n1 of
        Inl e \<Rightarrow> Throws e
      | Inr norm1 \<Rightarrow>
          (case normalizeArabicName n2 of
             Inl e \<Rightarrow> Throws e
           | Inr norm2 \<Rightarrow>
               let sm = (soundex norm1 = soundex norm2)
               in (case jaroWinkler (normalized norm1) (normalized norm2) of
                     None \<Rightarrow> Diverges
                   | Some sim \<Rightarrow>
                       Returns \<lparr>name1 = norm1, name2 = norm2, soundexMatch = sm,
                                similarity = sim,
                                matchScore = (if sm then max sim (85 / 100) else sim)\<rparr>)))"

section \<open>Notions used in the statements and proofs\<close>

text \<open>The case mappings on the ASCII letters, all other code units unchanged: what
  \<^verbatim>\<open>toLowerCase\<close> and \<^verbatim>\<open>toUpperCase\<close> do on a string of ASCII code units. They
  instantiate the two parameters at concrete ASCII inputs.\<close>

definition asciiToLowerCase :: "jstring \<Rightarrow> jstring" where
  "asciiToLowerCase s = map (\<lambda>c. if 0x41 \<le> c \<and> c \<le> 0x5A then c + 0x20 else c) s"

definition asciiToUpperCase :: "jstring \<Rightarrow> jstring" where
  "asciiToUpperCase s = map (\<lambda>c. if 0x61 \<le> c \<and> c \<le> 0x7A then c - 0x20 else c) s"

text \<open>The prefix contract in the words of the specification: an entry whose key is a leading
  substring of the string replaces it by its replacement; the table is scanned entry by
  entry, in order, each entry against the string as rewritten so far.\<close>

definition rewritePrefix :: "jstring \<Rightarrow> jstring \<times> jstring \<Rightarrow> jstring" where
  "rewritePrefix s entry =
     (if take (length (fst entry)) s = fst entry then snd entry @ drop (length (fst entry)) s
      else s)"

text \<open>A string without a code unit of the class \<^verbatim>\<open>ARABIC_DIACRITICS\<close>.\<close>

definition diacriticFree :: "jstring \<Rightarrow> bool" where
  "diacriticFree s = (\<not> list_ex ARABIC_DIACRITICS s)"

text \<open>The number of flags that are set in an array of flags.\<close>

definition trues :: "bool list \<Rightarrow> nat" where
  "trues m = length (filter (\<lambda>b. b) m)"

text \<open>The code units of \<open>s\<close> at the flagged indices below \<open>n\<close>, in order.\<close>

definition matchedPrefix :: "jstring \<Rightarrow> bool list \<Rightarrow> nat \<Rightarrow> jstring" where
  "matchedPrefix s m n = map fst (filter snd (take n (zip s m)))"

text \<open>The number of pairs of different code units.\<close>

definition mismatches :: "(16 word \<times> 16 word) list \<Rightarrow> nat" where
  "mismatches ps = length (filter (\<lambda>(x, y). x \<noteq> y) ps)"

text \<open>What holds of the state of the match search before the turn for index \<open>k\<close>: the arrays keep
  their lengths, \<open>matches\<close> counts the flags of either array, and no index from \<open>k\<close> on is
  flagged in \<open>s1Matches\<close>.\<close>

definition matchInvariant :: "jstring \<Rightarrow> jstring \<Rightarrow> nat \<Rightarrow> matchState \<Rightarrow> bool" where
  "matchInvariant s1 s2 k st =
     (length (s1Matches st) = length s1 \<and> length (s2Matches st) = length s2 \<and>
      matches st = trues (s1Matches st) \<and> matches st = trues (s2Matches st) \<and>
      (\<forall>i. k \<le> i \<and> i < length s1 \<longrightarrow> \<not> s1Matches st ! i))"

text \<open>The score as a function of the number of matches, the two lengths, the number of
  transpositions and the length of the common prefix.\<close>

definition winklerScore :: "nat \<Rightarrow> nat \<Rightarrow> nat \<Rightarrow> nat \<Rightarrow> nat \<Rightarrow> real" where
  "winklerScore m len1 len2 t p =
     (let jaro = (real m / real len1 + real m / real len2 + (real m - real t / 2) / real m) / 3
      in jaro + real p * (1 / 10) * (1 - jaro))"

text \<open>Index \<open>i\<close> of \<open>s1\<close> may be matched with index \<open>j\<close> of \<open>s2\<close>: equal code units, and
  \<open>j\<close> in the window of \<open>i\<close>.\<close>

definition compatible :: "jstring \<Rightarrow> jstring \<Rightarrow> int \<Rightarrow> nat \<Rightarrow> nat \<Rightarrow> bool" where
  "compatible s1 s2 w i j =
     (i < length s1 \<and> j < length s2 \<and> s1 ! i = s2 ! j \<and>
      windowStart w i \<le> j \<and> j < windowEnd w (length s2) i)"

text \<open>A matching of indices by pairs that may be matched, in which every pair left out has one of
  its two indices matched with a smaller index than the other of the pair.\<close>

definition stableMatching :: "(nat \<Rightarrow> nat \<Rightarrow> bool) \<Rightarrow> (nat \<times> nat) set \<Rightarrow> bool" where
  "stableMatching cmp M =
     ((\<forall>i j. (i, j) \<in> M \<longrightarrow> cmp i j) \<and>
      (\<forall>i j j'. (i, j) \<in> M \<and> (i, j') \<in> M \<longrightarrow> j = j') \<and>
      (\<forall>i i' j. (i, j) \<in> M \<and> (i', j) \<in> M \<longrightarrow> i = i') \<and>
      (\<forall>i j. cmp i j \<and> (i, j) \<notin> M \<longrightarrow> (\<exists>j'<j. (i, j') \<in> M) \<or> (\<exists>i'<i. (i', j) \<in> M)))"

text \<open>What holds of the state of the match search before the turn for index \<open>k\<close>, with the set
  \<open>M\<close> of the pairs matched so far: the flags are the indices that occur in \<open>M\<close>, and \<open>M\<close>
  is a stable matching of the indices of \<open>s1\<close> below \<open>k\<close>.\<close>

definition matchingInvariant ::
  "jstring \<Rightarrow> jstring \<Rightarrow> int \<Rightarrow> nat \<Rightarrow> matchState \<Rightarrow> (nat \<times> nat) set \<Rightarrow> bool" where
  "matchingInvariant s1 s2 w k st M =
     ((\<forall>i<length s1. s1Matches st ! i = (\<exists>j. (i, j) \<in> M)) \<and>
      (\<forall>j<length s2. s2Matches st ! j = (\<exists>i. (i, j) \<in> M)) \<and>
      (\<forall>i j. (i, j) \<in> M \<longrightarrow> i < k \<and> compatible s1 s2 w i j) \<and>
      (\<forall>i j j'. (i, j) \<in> M \<and> (i, j') \<in> M \<longrightarrow> j = j') \<and>
      (\<forall>i i' j. (i, j) \<in> M \<and> (i', j) \<in> M \<longrightarrow> i = i') \<and>
      (\<forall>i j. i < k \<and> compatible s1 s2 w i j \<and> (i, j) \<notin> M \<longrightarrow>
             (\<exists>j'<j. (i, j') \<in> M) \<or> (\<exists>i'<i. (i', j) \<in> M)))"

text \<open>What is assumed of the rounding of the runtime. All of it holds of rounding to the
  nearest double: it is monotone, it leaves a double as it is, the integers below \<open>2 ^ 53\<close>
  and the powers of two \<open>1/2\<close> and \<open>1/8\<close> are doubles, and the difference \<open>1 - x\<close> of a
  double \<open>x\<close> between \<open>1/2\<close> and \<open>1\<close> is a double.\<close>

definition rounding :: "(real \<Rightarrow> real) \<Rightarrow> bool" where
  "rounding rnd =
     ((\<forall>x y. x \<le> y \<longrightarrow> rnd x \<le> rnd y) \<and>
      (\<forall>x. rnd (rnd x) = rnd x) \<and>
      (\<forall>n. n < 2 ^ 53 \<longrightarrow> rnd (real n) = real n) \<and>
      rnd (1 / 2) = 1 / 2 \<and> rnd (1 / 8) = 1 / 8 \<and>
      (\<forall>x. rnd x = x \<and> 1 / 2 \<le> x \<and> x \<le> 1 \<longrightarrow> rnd (1 - x) = 1 - x))"

text \<open>The rounded score as a function of the number of matches, the two lengths, the number of
  transpositions and the length of the common prefix.\<close>

definition roundedScore :: "(real \<Rightarrow> real) \<Rightarrow> nat \<Rightarrow> nat \<Rightarrow> nat \<Rightarrow> nat \<Rightarrow> nat \<Rightarrow> real" where
  "roundedScore rnd m len1 len2 t p =
     (let jaro = rnd (rnd (rnd (rnd (real m / real len1) + rnd (real m / real len2)) +
                           rnd (rnd (real m - rnd (real t / 2)) / real m)) / 3)
      in rnd (jaro + rnd (rnd (real p * rnd (1 / 10)) * rnd (1 - jaro))))"

text \<open>A rounding function that is not the identity: truncation to 53 binary places.\<close>

definition truncate53 :: "real \<Rightarrow> real" where
  "truncate53 x = real_of_int \<lfloor>x * 2 ^ 53\<rfloor> / 2 ^ 53"

section \<open>Verified properties\<close>

subsection \<open>The phonetic encoder on a text of diacritics only\<close>

text \<open>
  C1 (totality of the core operations). The claim does not hold of \<^verbatim>\<open>arabicSoundex\<close>:
  on the one-unit string U+064B (fathatan), which is not empty but is empty after diacritic
  removal, the call raises a TypeError instead of returning a string.
\<close>

theorem arabicSoundex_throws_on_lone_diacritic:
  "arabicSoundex [0x064B] = Inl TypeError"
  by code_simp

text \<open>
  C5 (the code is empty or has exactly six code units). On the non-empty string U+0651
  (shadda) \<^verbatim>\<open>arabicSoundex\<close> returns no code at all: it raises a TypeError.
\<close>

theorem arabicSoundex_no_code_for_shadda:
  "[0x0651] \<noteq> ([] :: jstring) \<and> arabicSoundex [0x0651] = Inl TypeError"
  by code_simp

subsection \<open>The compare handler does not look at the script\<close>

text \<open>
  C2 (two Latin names: the final score is the Jaro-Winkler score of the Latin
  normalizations, without the 0.85 floor). The names \<^verbatim>\<open>Ali\<close> and \<^verbatim>\<open>Amr\<close> hold no
  Arabic code unit; their Latin normalizations are \<^verbatim>\<open>Ali\<close> and \<^verbatim>\<open>Amr\<close>, of score 3/5.
  The handler normalizes both as Arabic names, finds the phonetic codes equal
  (\<^verbatim>\<open>A00000\<close> twice) and answers with the floored score 17/20.
\<close>

theorem compare_floors_latin_pair:
  "\<not> isArabic [0x41, 0x6C, 0x69] \<and> \<not> isArabic [0x41, 0x6D, 0x72] \<and>
   map_outcome soundexMatch (compare [0x41, 0x6C, 0x69] [0x41, 0x6D, 0x72]) = Returns True \<and>
   map_outcome similarity (compare [0x41, 0x6C, 0x69] [0x41, 0x6D, 0x72]) = Returns (3 / 5) \<and>
   map_outcome matchScore (compare [0x41, 0x6C, 0x69] [0x41, 0x6D, 0x72]) = Returns (17 / 20) \<and>
   en_normalized (normalizeEnglishName asciiToLowerCase asciiToUpperCase [0x41, 0x6C, 0x69])
     = [0x41, 0x6C, 0x69] \<and>
   en_normalized (normalizeEnglishName asciiToLowerCase asciiToUpperCase [0x41, 0x6D, 0x72])
     = [0x41, 0x6D, 0x72] \<and>
   jaroWinkler [0x41, 0x6C, 0x69] [0x41, 0x6D, 0x72] = Some (3 / 5)"
  by code_simp

text \<open>
  C3 (a mixed-script pair never has the phonetic-match flag). The name \<^verbatim>\<open>Ali\<close> followed
  by the Arabic comma U+060C holds an Arabic code unit, the name \<^verbatim>\<open>Ali\<close> holds none; the
  handler answers with the flag set.
\<close>

theorem compare_flags_mixed_pair:
  "isArabic [0x41, 0x6C, 0x69, 0x060C] \<and> \<not> isArabic [0x41, 0x6C, 0x69] \<and>
   map_outcome soundexMatch (compare [0x41, 0x6C, 0x69, 0x060C] [0x41, 0x6C, 0x69]) = Returns True"
  by code_simp

subsection \<open>Prefix normalization\<close>

lemma prefixLoop_foldl: "prefixLoop table s = foldl rewritePrefix s table"
  by (induction table s rule: prefixLoop.induct)
     (simp_all add: rewritePrefix_def startsWith_def substring_def)

text \<open>
  C9 (the prefix tables are scanned whole, in declaration order, over the rewritten string).
  Both normalizers are the left fold of \<open>rewritePrefix\<close> over their whole table, the Latin one
  from the lower-cased text; no entry ends the scan. So an entry can apply after an earlier
  one has: \<^verbatim>\<open>al-abdel-x\<close> loses \<^verbatim>\<open>al-\<close> by the first entry, which leaves \<^verbatim>\<open>abdel-x\<close>,
  and then the hyphen by the entry \<^verbatim>\<open>abdel-\<close>, which leaves \<^verbatim>\<open>abdelx\<close>; the same from
  \<^verbatim>\<open>Al-Abdel-X\<close> through the Latin normalizer. In the Arabic table the article (0627 0644)
  comes off first and the entry for \<open>abd al\<close> with a space then applies to what is left.
\<close>

theorem prefixes_scan_whole_table:
  "normalizeArabicPrefixes text = foldl rewritePrefix text PREFIXES \<and>
   normalizeEnglishPrefixes toLowerCase text
     = foldl rewritePrefix (toLowerCase text) ENGLISH_PREFIXES \<and>
   rewritePrefix [0x61, 0x6C, 0x2D, 0x61, 0x62, 0x64, 0x65, 0x6C, 0x2D, 0x78] (hd ENGLISH_PREFIXES)
     = [0x61, 0x62, 0x64, 0x65, 0x6C, 0x2D, 0x78] \<and>
   prefixLoop ENGLISH_PREFIXES [0x61, 0x6C, 0x2D, 0x61, 0x62, 0x64, 0x65, 0x6C, 0x2D, 0x78]
     = [0x61, 0x62, 0x64, 0x65, 0x6C, 0x78] \<and>
   normalizeEnglishPrefixes asciiToLowerCase
     [0x41, 0x6C, 0x2D, 0x41, 0x62, 0x64, 0x65, 0x6C, 0x2D, 0x58]
     = [0x61, 0x62, 0x64, 0x65, 0x6C, 0x78] \<and>
   normalizeArabicPrefixes
     [0x0627, 0x0644, 0x0639, 0x0628, 0x062F, 0x0020, 0x0627, 0x0644, 0x0644, 0x0647]
     = [0x0639, 0x0628, 0x062F, 0x0627, 0x0644, 0x0644, 0x0647]"
proof -
  have "rewritePrefix [0x61, 0x6C, 0x2D, 0x61, 0x62, 0x64, 0x65, 0x6C, 0x2D, 0x78]
          (hd ENGLISH_PREFIXES) = [0x61, 0x62, 0x64, 0x65, 0x6C, 0x2D, 0x78]"
    by code_simp
  moreover
  have "prefixLoop ENGLISH_PREFIXES [0x61, 0x6C, 0x2D, 0x61, 0x62, 0x64, 0x65, 0x6C, 0x2D, 0x78]
     = [0x61, 0x62, 0x64, 0x65, 0x6C, 0x78]"
    by code_simp
  moreover
  have "normalizeEnglishPrefixes asciiToLowerCase
     [0x41, 0x6C, 0x2D, 0x41, 0x62, 0x64, 0x65, 0x6C, 0x2D, 0x58]
     = [0x61, 0x62, 0x64, 0x65, 0x6C, 0x78]"
    by code_simp
  moreover
  have "normalizeArabicPrefixes
     [0x0627, 0x0644, 0x0639, 0x0628, 0x062F, 0x0020, 0x0627, 0x0644, 0x0644, 0x0647]
     = [0x0639, 0x0628, 0x062F, 0x0627, 0x0644, 0x0644, 0x0647]"
    by code_simp
  moreover
  have "normalizeArabicPrefixes text = foldl rewritePrefix text PREFIXES"
    by (simp add: normalizeArabicPrefixes_def prefixLoop_foldl)
  moreover
  have "normalizeEnglishPrefixes toLowerCase text
     = foldl rewritePrefix (toLowerCase text) ENGLISH_PREFIXES"
    by (simp add: normalizeEnglishPrefixes_def prefixLoop_foldl)
  ultimately show ?thesis by blast
qed

subsection \<open>The phonetic code: when it is returned, and its length\<close>

lemma length_replaceAll [simp]: "length (replaceAll f t s) = length s"
  by (simp add: replaceAll_def)

lemma length_lettersLoop [simp]: "length (lettersLoop es s) = length s"
  by (induction es s rule: lettersLoop.induct) simp_all

lemma length_normalizeArabicLetters [simp]: "length (normalizeArabicLetters s) = length s"
  by (simp add: normalizeArabicLetters_def)

lemma soundexLoop_length:
  "0 < length sx \<Longrightarrow> length sx \<le> 6 \<Longrightarrow> 0 < length (soundexLoop cs sx lc) \<and> length (soundexLoop cs sx lc) \<le> 6"
  by (induction cs sx lc rule: soundexLoop.induct) (auto split: option.splits)

lemma soundexLoop_hd:
  "sx \<noteq> [] \<Longrightarrow> hd (soundexLoop cs sx lc) = hd sx"
  by (induction cs sx lc rule: soundexLoop.induct) (auto split: option.splits)

lemma padZeros_length: "length sx \<le> 6 \<Longrightarrow> length (padZeros sx) = 6"
  by (induction sx rule: padZeros.induct) (subst padZeros.simps, auto)

lemma padZeros_hd: "sx \<noteq> [] \<Longrightarrow> hd (padZeros sx) = hd sx"
  by (induction sx rule: padZeros.induct) (subst padZeros.simps, auto)

lemma arabicSoundex_cases:
  "arabicSoundex text =
     (if text = [] then Inr []
      else if removeDiacritics text = [] then Inl TypeError
      else Inr (padZeros (soundexLoop (tl (normalizeArabicLetters (removeDiacritics text)))
                   [hd (normalizeArabicLetters (removeDiacritics text))]
                   (ARABIC_SOUNDEX (hd (normalizeArabicLetters (removeDiacritics text)))))))"
proof (cases "normalizeArabicLetters (removeDiacritics text)")
  case Nil
  then have "length (removeDiacritics text) = 0"
    by (metis length_normalizeArabicLetters list.size(3))
  with Nil show ?thesis by (simp add: arabicSoundex_def)
next
  case (Cons a as)
  then have "removeDiacritics text \<noteq> []"
    by (metis length_normalizeArabicLetters list.size(3) length_0_conv list.distinct(1))
  moreover have "text \<noteq> []" using calculation by (auto simp: removeDiacritics_def)
  ultimately show ?thesis using Cons by (simp add: arabicSoundex_def)
qed

lemma arabicSoundex_length:
  assumes "removeDiacritics text \<noteq> []"
  shows "\<exists>code. arabicSoundex text = Inr code \<and> length code = 6 \<and>
           hd code = hd (normalizeArabicLetters (removeDiacritics text))"
proof -
  let ?n = "normalizeArabicLetters (removeDiacritics text)"
  let ?sx = "soundexLoop (tl ?n) [hd ?n] (ARABIC_SOUNDEX (hd ?n))"
  from assms have ne: "text \<noteq> []" by (auto simp: removeDiacritics_def)
  have len: "0 < length ?sx \<and> length ?sx \<le> 6"
    by (rule soundexLoop_length) simp_all
  then have "?sx \<noteq> []" by auto
  then have "hd (padZeros ?sx) = hd ?sx" by (rule padZeros_hd)
  also have "\<dots> = hd ?n" by (simp add: soundexLoop_hd)
  finally have "hd (padZeros ?sx) = hd ?n" .
  moreover have "length (padZeros ?sx) = 6" using len by (simp add: padZeros_length)
  moreover have "arabicSoundex text = Inr (padZeros ?sx)"
    using assms ne by (simp add: arabicSoundex_cases)
  ultimately show ?thesis by simp
qed

lemma arabicSoundex_throws_iff:
  "arabicSoundex text = Inl e \<longleftrightarrow> text \<noteq> [] \<and> removeDiacritics text = []"
  by (cases e) (simp add: arabicSoundex_cases)

subsection \<open>No diacritic survives normalization\<close>

lemma removeDiacritics_free: "c \<in> set (removeDiacritics s) \<Longrightarrow> \<not> ARABIC_DIACRITICS c"
  by (simp add: removeDiacritics_def)

lemma removeDiacritics_id: "\<forall>c\<in>set s. \<not> ARABIC_DIACRITICS c \<Longrightarrow> removeDiacritics s = s"
  by (simp add: removeDiacritics_def)

lemma set_replaceAll: "c \<in> set (replaceAll f t s) \<Longrightarrow> c \<in> set s \<or> c = t"
  by (auto simp: replaceAll_def split: if_splits)

lemma set_lettersLoop:
  "c \<in> set (lettersLoop es s) \<Longrightarrow> c \<in> set s \<or> c \<in> snd ` set es"
proof (induction es s rule: lettersLoop.induct)
  case (1 normalized)
  then show ?case by simp
next
  case (2 "from" to entries normalized)
  then have "c \<in> set (replaceAll from to normalized) \<or> c \<in> snd ` set entries" by simp
  then show ?case by (auto dest: set_replaceAll)
qed

lemma normalizeArabicLetters_free:
  assumes "\<forall>c\<in>set s. \<not> ARABIC_DIACRITICS c"
  shows "\<forall>c\<in>set (normalizeArabicLetters s). \<not> ARABIC_DIACRITICS c"
proof
  fix c assume "c \<in> set (normalizeArabicLetters s)"
  then have "c \<in> set s \<or> c \<in> snd ` set ARABIC_NORMALIZATIONS"
    unfolding normalizeArabicLetters_def by (rule set_lettersLoop)
  moreover have "\<forall>c \<in> snd ` set ARABIC_NORMALIZATIONS. \<not> ARABIC_DIACRITICS c"
    by (simp add: ARABIC_NORMALIZATIONS_def ARABIC_DIACRITICS_def)
  ultimately show "\<not> ARABIC_DIACRITICS c" using assms by blast
qed

lemma set_prefixLoop:
  "c \<in> set (prefixLoop table s) \<Longrightarrow> c \<in> set s \<or> (\<exists>e\<in>set table. c \<in> set (snd e))"
proof (induction table s rule: prefixLoop.induct)
  case (1 normalized)
  then show ?case by simp
next
  case (2 prefix replacement entries normalized)
  show ?case
  proof (cases "startsWith normalized prefix")
    case True
    with 2 have "c \<in> set (replacement @ substring normalized (length prefix)) \<or>
                 (\<exists>e\<in>set entries. c \<in> set (snd e))" by simp
    then show ?thesis by (auto simp: substring_def dest: in_set_dropD)
  next
    case False
    with 2 show ?thesis by auto
  qed
qed

lemma PREFIXES_free: "\<forall>e\<in>set PREFIXES. \<forall>c\<in>set (snd e). \<not> ARABIC_DIACRITICS c"
  by (simp add: PREFIXES_def ARABIC_DIACRITICS_def)

lemma ENGLISH_PREFIXES_free: "\<forall>e\<in>set ENGLISH_PREFIXES. \<forall>c\<in>set (snd e). \<not> ARABIC_DIACRITICS c"
  by (simp add: ENGLISH_PREFIXES_def ARABIC_DIACRITICS_def)

lemma space_free: "\<not> ARABIC_DIACRITICS 0x0020"
  by (simp add: ARABIC_DIACRITICS_def)

lemma set_collapseWhitespace:
  "c \<in> set (collapseWhitespace s) \<Longrightarrow> c \<in> set s \<or> c = 0x0020"
  by (induction s rule: collapseWhitespace.induct) (auto split: if_splits dest: set_dropWhileD)

lemma set_trim: "c \<in> set (trim s) \<Longrightarrow> c \<in> set s"
  by (auto simp: trim_def dest!: set_dropWhileD)

lemma split_nonempty: "split s sep \<noteq> []"
  by (induction s sep rule: split.induct) (auto split: list.splits)

lemma set_split_subset: "\<forall>p\<in>set (split s sep). set p \<subseteq> set s"
proof (induction s sep rule: split.induct)
  case (1 sep)
  then show ?case by simp
next
  case (2 c cs sep)
  show ?case
  proof (cases "c = sep")
    case True
    with 2 show ?thesis by auto
  next
    case False
    with split_nonempty [of cs sep] obtain p ps where ps: "split cs sep = p # ps"
      by (cases "split cs sep") auto
    with 2 False have "set p \<subseteq> set cs" "\<forall>q\<in>set ps. set q \<subseteq> set cs" by auto
    with ps False show ?thesis by auto
  qed
qed

lemma set_split: "p \<in> set (split s sep) \<Longrightarrow> c \<in> set p \<Longrightarrow> c \<in> set s"
  using set_split_subset by blast

lemma set_join: "c \<in> set (join ps sep) \<Longrightarrow> c = sep \<or> (\<exists>p\<in>set ps. c \<in> set p)"
  by (induction ps sep rule: join.induct) auto

lemma arabic_normal_form_free:
  "\<forall>c\<in>set (trim (collapseWhitespace (normalizeArabicPrefixes
      (normalizeArabicLetters (removeDiacritics name))))). \<not> ARABIC_DIACRITICS c"
proof
  fix c
  assume "c \<in> set (trim (collapseWhitespace (normalizeArabicPrefixes
      (normalizeArabicLetters (removeDiacritics name)))))"
  then have "c \<in> set (collapseWhitespace (normalizeArabicPrefixes
      (normalizeArabicLetters (removeDiacritics name))))" by (rule set_trim)
  then have "c \<in> set (normalizeArabicPrefixes (normalizeArabicLetters (removeDiacritics name)))
              \<or> c = 0x0020" by (rule set_collapseWhitespace)
  moreover have "\<forall>c\<in>set (normalizeArabicLetters (removeDiacritics name)). \<not> ARABIC_DIACRITICS c"
    by (rule normalizeArabicLetters_free) (simp add: removeDiacritics_free)
  ultimately show "\<not> ARABIC_DIACRITICS c"
    using PREFIXES_free space_free
    unfolding normalizeArabicPrefixes_def by (blast dest: set_prefixLoop)
qed

lemma arabicSoundex_returns:
  assumes "\<forall>c\<in>set s. \<not> ARABIC_DIACRITICS c"
  shows "\<exists>code. arabicSoundex s = Inr code \<and> (if s = [] then code = [] else length code = 6)"
proof (cases "s = []")
  case True
  then show ?thesis by (simp add: arabicSoundex_def)
next
  case False
  with assms have "removeDiacritics s \<noteq> []" by (simp add: removeDiacritics_id)
  from arabicSoundex_length [OF this] False show ?thesis by auto
qed

lemma partsLoop_returns:
  assumes "\<forall>p\<in>set ps. \<forall>c\<in>set p. \<not> ARABIC_DIACRITICS c"
  shows "\<exists>r. partsLoop ps = Inr r \<and> map part_original r = ps"
  using assms
proof (induction ps)
  case Nil
  then show ?case by simp
next
  case (Cons p ps)
  then obtain r where r: "partsLoop ps = Inr r" "map part_original r = ps" by auto
  from Cons.prems have "\<forall>c\<in>set p. \<not> ARABIC_DIACRITICS c" by simp
  from arabicSoundex_returns [OF this] obtain code where "arabicSoundex p = Inr code" by blast
  with r show ?case by simp
qed

lemma normalizeArabicName_returns:
  "\<exists>r. normalizeArabicName name = Inr r \<and> (\<forall>c\<in>set (normalized r). \<not> ARABIC_DIACRITICS c)"
proof (cases "name = []")
  case True
  then show ?thesis by (simp add: normalizeArabicName_def)
next
  case False
  let ?n = "trim (collapseWhitespace (normalizeArabicPrefixes
      (normalizeArabicLetters (removeDiacritics name))))"
  have free: "\<forall>c\<in>set ?n. \<not> ARABIC_DIACRITICS c" by (rule arabic_normal_form_free)
  then have "\<forall>p\<in>set (split ?n 0x0020). \<forall>c\<in>set p. \<not> ARABIC_DIACRITICS c"
    by (blast dest: set_split)
  from partsLoop_returns [OF this] obtain ps where ps: "partsLoop (split ?n 0x0020) = Inr ps"
    by blast
  from free have "\<forall>c\<in>set (filter (\<lambda>c. \<not> isWhitespace c) ?n). \<not> ARABIC_DIACRITICS c" by simp
  from arabicSoundex_returns [OF this] obtain code
    where code: "arabicSoundex (filter (\<lambda>c. \<not> isWhitespace c) ?n) = Inr code" by blast
  from False ps code free show ?thesis
    by (simp add: normalizeArabicName_def Let_def)
qed

lemma diacriticFree_iff: "diacriticFree s \<longleftrightarrow> (\<forall>c\<in>set s. \<not> ARABIC_DIACRITICS c)"
  by (simp add: diacriticFree_def list_ex_iff)

lemma not_isArabic_free: "\<not> isArabic s \<Longrightarrow> diacriticFree s"
proof -
  have "ARABIC_DIACRITICS c \<Longrightarrow> 0x0600 \<le> c \<and> c \<le> 0x06FF" for c
    unfolding ARABIC_DIACRITICS_def by (elim disjE conjE) (simp_all add: word_le_def)
  then show "\<not> isArabic s \<Longrightarrow> diacriticFree s"
    by (auto simp: isArabic_def diacriticFree_iff list_ex_iff)
qed

lemma english_normal_form_free:
  assumes lower: "\<And>s. diacriticFree s \<Longrightarrow> diacriticFree (toLowerCase s)"
    and upper: "\<And>s. diacriticFree s \<Longrightarrow> diacriticFree (toUpperCase s)"
    and name: "diacriticFree name"
  shows "diacriticFree (en_normalized (normalizeEnglishName toLowerCase toUpperCase name))"
proof (cases "name = []")
  case True
  then show ?thesis by (simp add: normalizeEnglishName_def diacriticFree_def)
next
  case False
  let ?n2 = "trim (collapseWhitespace (normalizeEnglishPrefixes toLowerCase name))"
  have "diacriticFree (toLowerCase name)" using lower name by blast
  then have n1: "\<forall>c\<in>set (normalizeEnglishPrefixes toLowerCase name). \<not> ARABIC_DIACRITICS c"
    using ENGLISH_PREFIXES_free
    unfolding normalizeEnglishPrefixes_def diacriticFree_iff by (blast dest: set_prefixLoop)
  have n2: "\<forall>c\<in>set ?n2. \<not> ARABIC_DIACRITICS c"
    using n1 space_free by (blast dest: set_trim set_collapseWhitespace)
  have part: "diacriticFree (toUpperCase (charAt0 p) @ slice1 p)" if "p \<in> set (split ?n2 0x0020)" for p
  proof -
    from that n2 have p: "\<forall>c\<in>set p. \<not> ARABIC_DIACRITICS c" by (blast dest: set_split)
    then have "diacriticFree (charAt0 p)"
      by (auto simp: diacriticFree_iff charAt0_def dest: in_set_takeD)
    then have "diacriticFree (toUpperCase (charAt0 p))" by (rule upper)
    moreover from p have "diacriticFree (slice1 p)"
      by (auto simp: diacriticFree_iff slice1_def dest: in_set_dropD)
    ultimately show ?thesis by (auto simp: diacriticFree_iff)
  qed
  have "\<forall>c\<in>set (join (map (\<lambda>part. toUpperCase (charAt0 part) @ slice1 part) (split ?n2 0x0020)) 0x0020).
          \<not> ARABIC_DIACRITICS c"
  proof
    fix c
    assume "c \<in> set (join (map (\<lambda>part. toUpperCase (charAt0 part) @ slice1 part) (split ?n2 0x0020)) 0x0020)"
    then have "c = 0x0020 \<or> (\<exists>p\<in>set (split ?n2 0x0020). c \<in> set (toUpperCase (charAt0 p) @ slice1 p))"
      by (auto dest!: set_join)
    then show "\<not> ARABIC_DIACRITICS c"
      using part space_free unfolding diacriticFree_iff by blast
  qed
  with False show ?thesis
    by (simp add: normalizeEnglishName_def Let_def diacriticFree_iff)
qed

text \<open>
  C8 (the normalized field of the script-dispatched normalization holds no diacritic). For
  every name the handler that dispatches on the script returns, and the normalized field of
  its result holds no code unit from U+064B to U+065F and no U+0670. The case mappings of
  the runtime are parameters; what is used of them is that they bring no diacritic into a
  string that has none.
\<close>

theorem soundexHandler_no_diacritics:
  assumes lower: "\<And>s. diacriticFree s \<Longrightarrow> diacriticFree (toLowerCase s)"
    and upper: "\<And>s. diacriticFree s \<Longrightarrow> diacriticFree (toUpperCase s)"
  shows "\<exists>r. soundexHandler toLowerCase toUpperCase name = Inr r \<and>
             \<not> list_ex ARABIC_DIACRITICS (normalizedOf r)"
proof (cases "isArabic name")
  case True
  from normalizeArabicName_returns [of name] obtain r
    where "normalizeArabicName name = Inr r" "\<forall>c\<in>set (normalized r). \<not> ARABIC_DIACRITICS c"
    by blast
  with True show ?thesis by (simp add: soundexHandler_def list_ex_iff)
next
  case False
  then have "diacriticFree name" by (rule not_isArabic_free)
  with lower upper
  have "diacriticFree (en_normalized (normalizeEnglishName toLowerCase toUpperCase name))"
    by (rule english_normal_form_free)
  with False show ?thesis by (simp add: soundexHandler_def diacriticFree_def)
qed

lemma asciiToLowerCase_free: "diacriticFree s \<Longrightarrow> diacriticFree (asciiToLowerCase s)"
proof -
  have "\<not> ARABIC_DIACRITICS (c + 0x20)" if "0x41 \<le> c" "c \<le> 0x5A" for c :: "16 word"
  proof -
    from that have "c + 0x20 \<le> 0x7A" by (simp add: word_le_def) uint_arith
    then show ?thesis by (auto simp: ARABIC_DIACRITICS_def word_le_def)
  qed
  then show "diacriticFree s \<Longrightarrow> diacriticFree (asciiToLowerCase s)"
    by (auto simp: diacriticFree_iff asciiToLowerCase_def)
qed

lemma asciiToUpperCase_free: "diacriticFree s \<Longrightarrow> diacriticFree (asciiToUpperCase s)"
proof -
  have "\<not> ARABIC_DIACRITICS (c - 0x20)" if "0x61 \<le> c" "c \<le> 0x7A" for c :: "16 word"
  proof -
    from that have "c - 0x20 \<le> 0x5A" by (simp add: word_le_def) uint_arith
    then show ?thesis by (auto simp: ARABIC_DIACRITICS_def word_le_def)
  qed
  then show "diacriticFree s \<Longrightarrow> diacriticFree (asciiToUpperCase s)"
    by (auto simp: diacriticFree_iff asciiToUpperCase_def)
qed

theorem soundexHandler_no_diacritics_witness:
  "map_sum id normalizedOf
     (soundexHandler asciiToLowerCase asciiToUpperCase [0x41, 0x6C, 0x2D, 0x53, 0x61, 0x79, 0x65, 0x64])
     = Inr [0x53, 0x61, 0x79, 0x65, 0x64] \<and>
   (\<exists>r. soundexHandler asciiToLowerCase asciiToUpperCase [0x41, 0x6C, 0x2D, 0x53, 0x61, 0x79, 0x65, 0x64]
          = Inr r \<and> \<not> list_ex ARABIC_DIACRITICS (normalizedOf r))"
proof -
  have "map_sum id normalizedOf
     (soundexHandler asciiToLowerCase asciiToUpperCase [0x41, 0x6C, 0x2D, 0x53, 0x61, 0x79, 0x65, 0x64])
     = Inr [0x53, 0x61, 0x79, 0x65, 0x64]"
    by code_simp
  moreover note soundexHandler_no_diacritics [of asciiToLowerCase asciiToUpperCase
        "[0x41, 0x6C, 0x2D, 0x53, 0x61, 0x79, 0x65, 0x64]",
        OF asciiToLowerCase_free asciiToUpperCase_free]
  ultimately show ?thesis by (rule conjI)
qed

subsection \<open>Names of white space only\<close>

lemma whitespace_not_diacritic: "isWhitespace c \<Longrightarrow> \<not> ARABIC_DIACRITICS c"
  unfolding isWhitespace_def ARABIC_DIACRITICS_def
  by (auto simp: word_le_def)

lemma replaceAll_id: "f \<notin> set s \<Longrightarrow> replaceAll f t s = s"
  by (induction s) (auto simp: replaceAll_def)

lemma lettersLoop_id: "\<forall>e\<in>set es. fst e \<notin> set s \<Longrightarrow> lettersLoop es s = s"
  by (induction es s rule: lettersLoop.induct) (simp_all add: replaceAll_id)

lemma normalizeArabicLetters_whitespace:
  assumes "list_all isWhitespace s"
  shows "normalizeArabicLetters s = s"
proof -
  have "\<forall>e\<in>set ARABIC_NORMALIZATIONS. \<not> isWhitespace (fst e)"
    by (simp add: ARABIC_NORMALIZATIONS_def isWhitespace_def)
  with assms have "\<forall>e\<in>set ARABIC_NORMALIZATIONS. fst e \<notin> set s"
    by (auto simp: list_all_iff)
  then show ?thesis unfolding normalizeArabicLetters_def by (rule lettersLoop_id)
qed

lemma startsWith_whitespace:
  assumes "list_all isWhitespace s" "p \<noteq> []" "\<not> isWhitespace (hd p)"
  shows "\<not> startsWith s p"
proof
  assume "startsWith s p"
  then have eq: "take (length p) s = p" by (simp add: startsWith_def)
  with assms(2) have "s \<noteq> []" by auto
  with eq assms(2) have "hd p = hd s" by (metis hd_take length_greater_0_conv)
  with assms(1,3) \<open>s \<noteq> []\<close> show False by (cases s) (auto)
qed

lemma prefixLoop_whitespace:
  assumes "list_all isWhitespace s" "\<forall>e\<in>set table. fst e \<noteq> [] \<and> \<not> isWhitespace (hd (fst e))"
  shows "prefixLoop table s = s"
  using assms
  by (induction table s rule: prefixLoop.induct) (auto dest: startsWith_whitespace)

lemma PREFIXES_heads: "\<forall>e\<in>set PREFIXES. fst e \<noteq> [] \<and> \<not> isWhitespace (hd (fst e))"
  by (simp add: PREFIXES_def isWhitespace_def)

lemma ENGLISH_PREFIXES_heads: "\<forall>e\<in>set ENGLISH_PREFIXES. fst e \<noteq> [] \<and> \<not> isWhitespace (hd (fst e))"
  by (simp add: ENGLISH_PREFIXES_def isWhitespace_def)

lemma dropWhile_whitespace: "list_all isWhitespace s \<Longrightarrow> dropWhile isWhitespace s = []"
  by (simp add: list_all_iff)

lemma trim_collapse_whitespace:
  assumes "list_all isWhitespace s"
  shows "trim (collapseWhitespace s) = []"
proof (cases s)
  case Nil
  then show ?thesis by (simp add: trim_def)
next
  case (Cons c cs)
  with assms have c: "isWhitespace c" and cs: "list_all isWhitespace cs"
    by simp_all
  from Cons c have "collapseWhitespace s = 0x0020 # collapseWhitespace (dropWhile isWhitespace cs)"
    by simp
  also from cs have "dropWhile isWhitespace cs = []" by (rule dropWhile_whitespace)
  finally have "collapseWhitespace s = [0x0020]" by simp
  then show ?thesis by (simp add: trim_def isWhitespace_def)
qed

text \<open>
  C10 (a name of white space only). For a non-empty name of white space only,
  \<^verbatim>\<open>normalizeArabicName\<close> returns the empty normalized string with one part, whose token and
  code are empty, and \<^verbatim>\<open>normalizeEnglishName\<close> returns the empty normalized string with the
  one part \<^verbatim>\<open>''\<close>. Of the case mappings it is used that lower-casing leaves the name
  white space and that the upper case of the empty string is empty.
\<close>

theorem whitespace_only_name:
  assumes "name \<noteq> []" and "list_all isWhitespace name"
    and "list_all isWhitespace (toLowerCase name)" and "toUpperCase [] = []"
  shows "normalizeArabicName name =
           Inr \<lparr>original = name, normalized = [], soundex = [],
                parts = [\<lparr>part_original = [], part_soundex = []\<rparr>]\<rparr> \<and>
         normalizeEnglishName toLowerCase toUpperCase name =
           \<lparr>en_original = name, en_normalized = [], en_parts = [[]]\<rparr>"
proof
  from assms(2) have "removeDiacritics name = name"
    by (auto simp: list_all_iff intro!: removeDiacritics_id dest: whitespace_not_diacritic)
  moreover from assms(2) have "normalizeArabicLetters name = name"
    by (rule normalizeArabicLetters_whitespace)
  moreover from assms(2) PREFIXES_heads have "normalizeArabicPrefixes name = name"
    unfolding normalizeArabicPrefixes_def by (rule prefixLoop_whitespace)
  moreover from assms(2) have "trim (collapseWhitespace name) = []"
    by (rule trim_collapse_whitespace)
  moreover have "arabicSoundex [] = Inr []" by (simp add: arabicSoundex_def)
  ultimately show "normalizeArabicName name =
           Inr \<lparr>original = name, normalized = [], soundex = [],
                parts = [\<lparr>part_original = [], part_soundex = []\<rparr>]\<rparr>"
    using assms(1) by (simp add: normalizeArabicName_def)
next
  from assms(3) ENGLISH_PREFIXES_heads
  have "normalizeEnglishPrefixes toLowerCase name = toLowerCase name"
    unfolding normalizeEnglishPrefixes_def by (rule prefixLoop_whitespace)
  moreover from assms(3) have "trim (collapseWhitespace (toLowerCase name)) = []"
    by (rule trim_collapse_whitespace)
  ultimately show "normalizeEnglishName toLowerCase toUpperCase name =
           \<lparr>en_original = name, en_normalized = [], en_parts = [[]]\<rparr>"
    using assms(1,4) by (simp add: normalizeEnglishName_def charAt0_def slice1_def)
qed

theorem whitespace_only_name_witness:
  "[0x0020, 0x0009] \<noteq> ([] :: jstring) \<and> list_all isWhitespace [0x0020, 0x0009] \<and>
   list_all isWhitespace (asciiToLowerCase [0x0020, 0x0009]) \<and> asciiToUpperCase [] = [] \<and>
   normalizeArabicName [0x0020, 0x0009] =
     Inr \<lparr>original = [0x0020, 0x0009], normalized = [], soundex = [],
          parts = [\<lparr>part_original = [], part_soundex = []\<rparr>]\<rparr> \<and>
   normalizeEnglishName asciiToLowerCase asciiToUpperCase [0x0020, 0x0009] =
     \<lparr>en_original = [0x0020, 0x0009], en_normalized = [], en_parts = [[]]\<rparr>"
proof -
  have h1: "[0x0020, 0x0009] \<noteq> ([] :: jstring)" by simp
  have h2: "list_all isWhitespace [0x0020, 0x0009]" by (simp add: isWhitespace_def)
  have h3: "list_all isWhitespace (asciiToLowerCase [0x0020, 0x0009])"
    by (simp add: isWhitespace_def asciiToLowerCase_def)
  have h4: "asciiToUpperCase [] = []" by (simp add: asciiToUpperCase_def)
  note whitespace_only_name [of "[0x0020, 0x0009]" asciiToLowerCase asciiToUpperCase, OF h1 h2 h3 h4]
  with h1 h2 h3 h4 show ?thesis by blast
qed

subsection \<open>The match search\<close>

lemma trues_le_length: "trues m \<le> length m"
  by (simp add: trues_def)

lemma trues_replicate [simp]: "trues (replicate n False) = 0"
  by (simp add: trues_def)

lemma trues_update:
  "i < length m \<Longrightarrow> \<not> m ! i \<Longrightarrow> trues (m[i := True]) = Suc (trues m)"
  by (induction m arbitrary: i) (auto simp: trues_def nth_Cons split: nat.splits)

lemma findMatch_Some:
  "findMatch s2 m2 c js = Some j \<Longrightarrow> j \<in> set js \<and> \<not> m2 ! j \<and> c = s2 ! j"
  by (induction js) (auto split: if_splits)

lemma findMatch_None:
  "findMatch s2 m2 c js = None \<Longrightarrow> j \<in> set js \<Longrightarrow> m2 ! j \<or> c \<noteq> s2 ! j"
  by (induction js) (auto split: if_splits)

lemma windowEnd_le: "windowEnd w len2 i \<le> len2"
  by (simp add: windowEnd_def)

lemma matchStep_invariant:
  assumes inv: "matchInvariant s1 s2 k st" and k: "k < length s1"
  shows "matchInvariant s1 s2 (Suc k) (matchStep s1 s2 w st k)"
proof (cases "findMatch s2 (s2Matches st) (s1 ! k)
                [windowStart w k ..< windowEnd w (length s2) k]")
  case None
  with inv show ?thesis by (auto simp: matchStep_def matchInvariant_def)
next
  case (Some j)
  from findMatch_Some [OF Some] have j: "j < windowEnd w (length s2) k" "\<not> s2Matches st ! j"
    by auto
  with windowEnd_le [of w "length s2" k] have jl: "j < length s2" by simp
  from inv k have nk: "\<not> s1Matches st ! k" by (simp add: matchInvariant_def)
  have 1: "trues ((s1Matches st)[k := True]) = Suc (trues (s1Matches st))"
    using inv k nk by (intro trues_update) (simp_all add: matchInvariant_def)
  have 2: "trues ((s2Matches st)[j := True]) = Suc (trues (s2Matches st))"
    using inv jl j(2) by (intro trues_update) (simp_all add: matchInvariant_def)
  from inv 1 2 Some show ?thesis
    by (auto simp: matchStep_def matchInvariant_def)
qed

lemma findMatches_prefix_invariant:
  "k \<le> length s1 \<Longrightarrow>
   matchInvariant s1 s2 k
     (foldl (matchStep s1 s2 w)
        \<lparr>s1Matches = replicate (length s1) False, s2Matches = replicate (length s2) False,
         matches = 0\<rparr> [0 ..< k])"
proof (induction k)
  case 0
  then show ?case by (simp add: matchInvariant_def)
next
  case (Suc k)
  then show ?case by (simp add: matchStep_invariant)
qed

lemma findMatches_invariant:
  "matchInvariant s1 s2 (length s1) (findMatches s1 s2 w)"
  unfolding findMatches_def by (rule findMatches_prefix_invariant) simp

subsection \<open>The transposition count\<close>

lemma skipUnmatched_Some:
  "skipUnmatched m k = Some k' \<Longrightarrow>
     k \<le> k' \<and> k' < length m \<and> m ! k' \<and> (\<forall>j. k \<le> j \<and> j < k' \<longrightarrow> \<not> m ! j)"
proof (induction m k rule: skipUnmatched.induct)
  case (1 m k)
  show ?case
  proof (cases "m ! k")
    case True
    with "1.prems" show ?thesis
      by (subst (asm) skipUnmatched.simps) (auto split: if_splits)
  next
    case False
    with "1.prems" have lt: "\<not> length m \<le> k" and rec: "skipUnmatched m (k + 1) = Some k'"
      by (subst (asm) skipUnmatched.simps, auto split: if_splits)+
    from "1.IH" [OF lt False rec]
    have *: "k + 1 \<le> k'" "k' < length m" "m ! k'" "\<forall>j. k + 1 \<le> j \<and> j < k' \<longrightarrow> \<not> m ! j"
      by auto
    have "\<not> m ! j" if "k \<le> j" "j < k'" for j
    proof (cases "j = k")
      case True
      with False show ?thesis by simp
    next
      case False
      with that * show ?thesis by auto
    qed
    with * show ?thesis by auto
  qed
qed

lemma skipUnmatched_returns:
  "k \<le> j \<Longrightarrow> j < length m \<Longrightarrow> m ! j \<Longrightarrow> \<exists>k'. skipUnmatched m k = Some k'"
proof (induction m k rule: skipUnmatched.induct)
  case (1 m k)
  show ?case
  proof (cases "m ! k")
    case True
    with "1.prems" show ?thesis by (subst skipUnmatched.simps) auto
  next
    case False
    with "1.prems" have "k \<noteq> j" by auto
    with "1.prems" have "k + 1 \<le> j" "\<not> length m \<le> k" by auto
    with "1.IH" [OF _ False] "1.prems" obtain k' where "skipUnmatched m (k + 1) = Some k'"
      by blast
    with False \<open>\<not> length m \<le> k\<close> show ?thesis by (subst skipUnmatched.simps) auto
  qed
qed

lemma matchedPrefix_0 [simp]: "matchedPrefix s m 0 = []"
  by (simp add: matchedPrefix_def)

lemma matchedPrefix_Suc:
  assumes "n < length s" "n < length m"
  shows "matchedPrefix s m (Suc n) = matchedPrefix s m n @ (if m ! n then [s ! n] else [])"
proof -
  from assms have "n < length (zip s m)" by simp
  then have "take (Suc n) (zip s m) = take n (zip s m) @ [zip s m ! n]"
    by (rule take_Suc_conv_app_nth)
  with assms show ?thesis by (simp add: matchedPrefix_def)
qed

lemma matchedPrefix_skip:
  "k \<le> k' \<Longrightarrow> k' \<le> length m \<Longrightarrow> length s = length m \<Longrightarrow>
   \<forall>j. k \<le> j \<and> j < k' \<longrightarrow> \<not> m ! j \<Longrightarrow> matchedPrefix s m k' = matchedPrefix s m k"
proof (induction k')
  case 0
  then show ?case by simp
next
  case (Suc k')
  show ?case
  proof (cases "k = Suc k'")
    case True
    then show ?thesis by simp
  next
    case False
    with Suc.prems have "k \<le> k'" "\<not> m ! k'" "k' < length m" "k' < length s" by auto
    with Suc show ?thesis by (simp add: matchedPrefix_Suc)
  qed
qed

lemma length_matchedPrefix:
  "length s = length m \<Longrightarrow> length (matchedPrefix s m n) = trues (take n m)"
proof (induction n)
  case 0
  then show ?case by (simp add: trues_def)
next
  case (Suc n)
  show ?case
  proof (cases "n < length m")
    case True
    with Suc show ?thesis
      by (simp add: matchedPrefix_Suc take_Suc_conv_app_nth trues_def)
  next
    case False
    with Suc show ?thesis by (simp add: matchedPrefix_def)
  qed
qed

lemma length_matchedPrefix_le:
  assumes "length s = length m"
  shows "length (matchedPrefix s m n) \<le> trues m"
proof -
  have "trues (take n m) + trues (drop n m) = trues m"
    unfolding trues_def by (metis append_take_drop_id filter_append length_append)
  with assms show ?thesis by (simp add: length_matchedPrefix)
qed

lemma length_matchedPrefix_full:
  "length s = length m \<Longrightarrow> length m \<le> n \<Longrightarrow> length (matchedPrefix s m n) = trues m"
  by (simp add: length_matchedPrefix)

lemma unmatched_rest:
  assumes len: "length s = length m" and k: "k \<le> length m"
    and less: "length (matchedPrefix s m k) < trues m"
  shows "\<exists>j. k \<le> j \<and> j < length m \<and> m ! j"
proof (rule ccontr)
  assume "\<not> (\<exists>j. k \<le> j \<and> j < length m \<and> m ! j)"
  then have "\<forall>j. k \<le> j \<and> j < length m \<longrightarrow> \<not> m ! j" by blast
  with k len have "matchedPrefix s m (length m) = matchedPrefix s m k"
    by (intro matchedPrefix_skip) simp_all
  moreover from len have "length (matchedPrefix s m (length m)) = trues m"
    by (simp add: length_matchedPrefix_full)
  ultimately show False using less by simp
qed

lemma mismatches_snoc:
  "mismatches (ps @ [(a, b)]) = mismatches ps + (if a \<noteq> b then 1 else 0)"
  by (simp add: mismatches_def)

lemma mismatches_le: "mismatches (zip A B) \<le> length A"
  unfolding mismatches_def
  by (rule order_trans [OF length_filter_le]) simp

lemma transpositions_prefix:
  assumes len1: "length s1 = length m1" and len2: "length s2 = length m2"
    and le: "trues m1 \<le> trues m2"
  shows "n \<le> length s1 \<Longrightarrow>
         \<exists>k t. foldl (transpositionStep s1 s2 m1 m2) (Some (0, 0)) [0 ..< n] = Some (k, t) \<and>
               k \<le> length m2 \<and>
               length (matchedPrefix s2 m2 k) = length (matchedPrefix s1 m1 n) \<and>
               t = mismatches (zip (matchedPrefix s1 m1 n) (matchedPrefix s2 m2 k))"
proof (induction n)
  case 0
  then show ?case by (simp add: mismatches_def)
next
  case (Suc n)
  then obtain k t where
    run: "foldl (transpositionStep s1 s2 m1 m2) (Some (0, 0)) [0 ..< n] = Some (k, t)"
    and k: "k \<le> length m2"
    and eq: "length (matchedPrefix s2 m2 k) = length (matchedPrefix s1 m1 n)"
    and t: "t = mismatches (zip (matchedPrefix s1 m1 n) (matchedPrefix s2 m2 k))"
    by auto
  from Suc.prems len1 have n: "n < length s1" "n < length m1" by simp_all
  from run have step: "foldl (transpositionStep s1 s2 m1 m2) (Some (0, 0)) [0 ..< Suc n]
      = transpositionStep s1 s2 m1 m2 (Some (k, t)) n" by simp
  show ?case
  proof (cases "m1 ! n")
    case False
    with n have "matchedPrefix s1 m1 (Suc n) = matchedPrefix s1 m1 n"
      by (simp add: matchedPrefix_Suc)
    moreover from False have "transpositionStep s1 s2 m1 m2 (Some (k, t)) n = Some (k, t)"
      by (simp add: transpositionStep_def)
    ultimately show ?thesis using step k eq t by simp
  next
    case True
    with n have A: "matchedPrefix s1 m1 (Suc n) = matchedPrefix s1 m1 n @ [s1 ! n]"
      by (simp add: matchedPrefix_Suc)
    have "length (matchedPrefix s1 m1 (Suc n)) \<le> trues m1"
      using len1 by (rule length_matchedPrefix_le)
    with A eq le have "length (matchedPrefix s2 m2 k) < trues m2" by simp
    with len2 k obtain j where "k \<le> j" "j < length m2" "m2 ! j"
      using unmatched_rest by blast
    then obtain k' where k': "skipUnmatched m2 k = Some k'"
      using skipUnmatched_returns by blast
    from skipUnmatched_Some [OF k']
    have p: "k \<le> k'" "k' < length m2" "m2 ! k'" "\<forall>j. k \<le> j \<and> j < k' \<longrightarrow> \<not> m2 ! j"
      by auto
    with len2 have "matchedPrefix s2 m2 k' = matchedPrefix s2 m2 k"
      by (intro matchedPrefix_skip) simp_all
    with p len2 have B: "matchedPrefix s2 m2 (Suc k') = matchedPrefix s2 m2 k @ [s2 ! k']"
      by (simp add: matchedPrefix_Suc)
    have "foldl (transpositionStep s1 s2 m1 m2) (Some (0, 0)) [0 ..< Suc n]
            = Some (k' + 1, if s1 ! n \<noteq> s2 ! k' then t + 1 else t)"
      unfolding step using True k' by (simp add: transpositionStep_def)
    moreover have "mismatches (zip (matchedPrefix s1 m1 (Suc n)) (matchedPrefix s2 m2 (Suc k')))
            = (if s1 ! n \<noteq> s2 ! k' then t + 1 else t)"
      using eq t by (simp add: A B mismatches_snoc)
    moreover have "length (matchedPrefix s2 m2 (Suc k')) = length (matchedPrefix s1 m1 (Suc n))"
      using eq by (simp add: A B)
    moreover have "k' + 1 \<le> length m2" using p by simp
    ultimately show ?thesis by simp
  qed
qed

lemma countTranspositions_returns:
  assumes "length s1 = length m1" "length s2 = length m2" "trues m1 = trues m2"
  shows "\<exists>k. countTranspositions s1 s2 m1 m2 =
           Some (k, mismatches (zip (matchedPrefix s1 m1 (length s1)) (matchedPrefix s2 m2 (length s2))))"
proof -
  from assms have "trues m1 \<le> trues m2" by simp
  from transpositions_prefix [OF assms(1,2) this, of "length s1"]
  obtain k t where
    run: "countTranspositions s1 s2 m1 m2 = Some (k, t)"
    and k: "k \<le> length m2"
    and eq: "length (matchedPrefix s2 m2 k) = length (matchedPrefix s1 m1 (length s1))"
    and t: "t = mismatches (zip (matchedPrefix s1 m1 (length s1)) (matchedPrefix s2 m2 k))"
    by (auto simp: countTranspositions_def)
  have "matchedPrefix s2 m2 (length s2) = matchedPrefix s2 m2 k"
  proof (rule ccontr)
    assume neq: "matchedPrefix s2 m2 (length s2) \<noteq> matchedPrefix s2 m2 k"
    have "\<exists>j. k \<le> j \<and> j < length m2 \<and> m2 ! j"
    proof (rule ccontr)
      assume "\<not> (\<exists>j. k \<le> j \<and> j < length m2 \<and> m2 ! j)"
      then have "\<forall>j. k \<le> j \<and> j < length m2 \<longrightarrow> \<not> m2 ! j" by blast
      with k assms(2) have "matchedPrefix s2 m2 (length m2) = matchedPrefix s2 m2 k"
        by (intro matchedPrefix_skip) simp_all
      with neq assms(2) show False by simp
    qed
    then obtain j where j: "k \<le> j" "j < length m2" "m2 ! j" by blast
    have "length (matchedPrefix s2 m2 (Suc j)) \<le> trues m2"
      using assms(2) by (rule length_matchedPrefix_le)
    moreover have "trues (take k m2) \<le> trues (take j m2)"
    proof -
      from j(1) have "take j m2 = take k m2 @ take (j - k) (drop k m2)"
        by (metis le_add_diff_inverse take_add)
      then show ?thesis by (simp add: trues_def)
    qed
    moreover have "length (matchedPrefix s2 m2 (Suc j)) = Suc (trues (take j m2))"
      using j assms(2) by (simp add: matchedPrefix_Suc length_matchedPrefix)
    moreover have "length (matchedPrefix s1 m1 (length s1)) = trues m1"
      using assms(1) by (simp add: length_matchedPrefix_full)
    moreover have "length (matchedPrefix s2 m2 k) = trues (take k m2)"
      using assms(2) by (simp add: length_matchedPrefix)
    ultimately show False using eq assms(3) by simp
  qed
  with run t show ?thesis by auto
qed

subsection \<open>The range of the score\<close>

lemma jaroWinkler_unfold:
  assumes "s1 \<noteq> s2" "s1 \<noteq> []" "s2 \<noteq> []"
    and st: "st = findMatches s1 s2 (int (max (length s1) (length s2) div 2) - 1)"
  shows "jaroWinkler s1 s2 =
           (if matches st = 0 then Some 0
            else Some (winklerScore (matches st) (length s1) (length s2)
                   (mismatches (zip (matchedPrefix s1 (s1Matches st) (length s1))
                                    (matchedPrefix s2 (s2Matches st) (length s2))))
                   (commonPrefix s1 s2 [0 ..< min 4 (min (length s1) (length s2))] 0)))"
proof -
  have inv: "matchInvariant s1 s2 (length s1) st"
    unfolding st by (rule findMatches_invariant)
  then have "length s1 = length (s1Matches st)" "length s2 = length (s2Matches st)"
    "trues (s1Matches st) = trues (s2Matches st)"
    by (simp_all add: matchInvariant_def)
  from countTranspositions_returns [OF this] obtain k where
    "countTranspositions s1 s2 (s1Matches st) (s2Matches st) =
       Some (k, mismatches (zip (matchedPrefix s1 (s1Matches st) (length s1))
                                (matchedPrefix s2 (s2Matches st) (length s2))))" ..
  with assms(1-3) show ?thesis
    unfolding jaroWinkler_def st [symmetric] Let_def winklerScore_def
    by (simp add: st [symmetric])
qed

lemma commonPrefix_le: "commonPrefix s1 s2 is p \<le> p + length is"
proof (induction "is" arbitrary: p)
  case Nil
  then show ?case by simp
next
  case (Cons i "is")
  from Cons [of "p + 1"] show ?case by simp
qed

lemma winklerScore_range:
  assumes "0 < m" "m \<le> len1" "m \<le> len2" "t \<le> m" "p \<le> 4"
  shows "0 \<le> winklerScore m len1 len2 t p \<and> winklerScore m len1 len2 t p \<le> 1"
proof -
  define jaro where
    "jaro = (real m / real len1 + real m / real len2 + (real m - real t / 2) / real m) / 3"
  have a: "0 \<le> real m / real len1" "real m / real len1 \<le> 1"
    using assms by (simp_all add: divide_le_eq_1)
  have b: "0 \<le> real m / real len2" "real m / real len2 \<le> 1"
    using assms by (simp_all add: divide_le_eq_1)
  have c: "0 \<le> (real m - real t / 2) / real m" "(real m - real t / 2) / real m \<le> 1"
    using assms by (simp_all add: divide_le_eq_1)
  from a b c have jaro: "0 \<le> jaro" "jaro \<le> 1" by (simp_all add: jaro_def)
  have p: "0 \<le> real p * (1 / 10)" "real p * (1 / 10) \<le> 1" using assms(5) by simp_all
  have "real p * (1 / 10) * (1 - jaro) \<le> 1 * (1 - jaro)"
    using p jaro by (intro mult_right_mono) simp_all
  moreover have "0 \<le> real p * (1 / 10) * (1 - jaro)" using p jaro by simp
  ultimately have "0 \<le> jaro + real p * (1 / 10) * (1 - jaro)"
    "jaro + real p * (1 / 10) * (1 - jaro) \<le> 1" using jaro by simp_all
  then show ?thesis by (simp add: winklerScore_def jaro_def Let_def)
qed

lemma jaroWinkler_range:
  "\<exists>y. jaroWinkler a b = Some y \<and> 0 \<le> y \<and> y \<le> 1"
proof (cases "a = b \<or> a = [] \<or> b = []")
  case True
  then show ?thesis by (auto simp: jaroWinkler_def)
next
  case False
  define st where "st = findMatches a b (int (max (length a) (length b) div 2) - 1)"
  from False st_def have jw: "jaroWinkler a b =
           (if matches st = 0 then Some 0
            else Some (winklerScore (matches st) (length a) (length b)
                   (mismatches (zip (matchedPrefix a (s1Matches st) (length a))
                                    (matchedPrefix b (s2Matches st) (length b))))
                   (commonPrefix a b [0 ..< min 4 (min (length a) (length b))] 0)))"
    by (intro jaroWinkler_unfold) simp_all
  show ?thesis
  proof (cases "matches st = 0")
    case True
    with jw show ?thesis by simp
  next
    case nz: False
    have inv: "matchInvariant a b (length a) st"
      unfolding st_def by (rule findMatches_invariant)
    then have len: "length a = length (s1Matches st)" "length b = length (s2Matches st)"
      and m: "matches st = trues (s1Matches st)" "matches st = trues (s2Matches st)"
      by (simp_all add: matchInvariant_def)
    have m1: "matches st \<le> length a" using m(1) len(1) trues_le_length [of "s1Matches st"] by simp
    have m2: "matches st \<le> length b" using m(2) len(2) trues_le_length [of "s2Matches st"] by simp
    have "mismatches (zip (matchedPrefix a (s1Matches st) (length a))
                          (matchedPrefix b (s2Matches st) (length b)))
            \<le> length (matchedPrefix a (s1Matches st) (length a))"
      by (rule mismatches_le)
    also have "\<dots> = matches st" using len(1) m(1) by (simp add: length_matchedPrefix_full)
    finally have t: "mismatches (zip (matchedPrefix a (s1Matches st) (length a))
                          (matchedPrefix b (s2Matches st) (length b))) \<le> matches st" .
    have "commonPrefix a b [0 ..< min 4 (min (length a) (length b))] 0
            \<le> 0 + length [0 ..< min 4 (min (length a) (length b))]"
      by (rule commonPrefix_le)
    then have p: "commonPrefix a b [0 ..< min 4 (min (length a) (length b))] 0 \<le> 4" by simp
    from nz have "0 < matches st" by simp
    from winklerScore_range [OF this m1 m2 t p] jw nz show ?thesis by simp
  qed
qed

lemma jaroWinkler_returns: "\<exists>y. jaroWinkler a b = Some y"
  using jaroWinkler_range by blast

subsection \<open>The match search finds the stable matching\<close>

lemma window_iff:
  assumes "j < len2"
  shows "(windowStart w i \<le> j \<and> j < windowEnd w len2 i)
           = (int i - w \<le> int j \<and> int j \<le> int i + w)"
proof -
  have "(windowStart w i \<le> j) = (int i - w \<le> int j)"
    unfolding windowStart_def by linarith
  moreover have "(j < windowEnd w len2 i) = (int j \<le> int i + w)"
    unfolding windowEnd_def using assms by linarith
  ultimately show ?thesis by simp
qed

lemma compatible_sym: "compatible s1 s2 w i j = compatible s2 s1 w j i"
proof (cases "i < length s1 \<and> j < length s2")
  case True
  then have a: "(windowStart w i \<le> j \<and> j < windowEnd w (length s2) i)
           = (int i - w \<le> int j \<and> int j \<le> int i + w)"
    by (simp only: window_iff)
  from True have b: "(windowStart w j \<le> i \<and> i < windowEnd w (length s1) j)
           = (int j - w \<le> int i \<and> int i \<le> int j + w)"
    by (simp only: window_iff)
  have c: "(int i - w \<le> int j \<and> int j \<le> int i + w) = (int j - w \<le> int i \<and> int i \<le> int j + w)"
    by linarith
  have d: "(s1 ! i = s2 ! j) = (s2 ! j = s1 ! i)" by (rule eq_commute)
  show ?thesis unfolding compatible_def using a b c d True by blast
next
  case False
  then show ?thesis unfolding compatible_def by blast
qed

lemma stableMatching_converse:
  assumes "stableMatching cmp M"
  shows "stableMatching (\<lambda>j i. cmp i j) (M\<inverse>)"
proof -
  from assms have
    1: "\<forall>i j. (i, j) \<in> M \<longrightarrow> cmp i j" and
    2: "\<forall>i j j'. (i, j) \<in> M \<and> (i, j') \<in> M \<longrightarrow> j = j'" and
    3: "\<forall>i i' j. (i, j) \<in> M \<and> (i', j) \<in> M \<longrightarrow> i = i'" and
    4: "\<forall>i j. cmp i j \<and> (i, j) \<notin> M \<longrightarrow> (\<exists>j'<j. (i, j') \<in> M) \<or> (\<exists>i'<i. (i', j) \<in> M)"
    unfolding stableMatching_def by blast+
  have "\<forall>j i. (j, i) \<in> M\<inverse> \<longrightarrow> cmp i j" using 1 by simp
  moreover have "\<forall>j i i'. (j, i) \<in> M\<inverse> \<and> (j, i') \<in> M\<inverse> \<longrightarrow> i = i'" using 3 by auto
  moreover have "\<forall>j j' i. (j, i) \<in> M\<inverse> \<and> (j', i) \<in> M\<inverse> \<longrightarrow> j = j'" using 2 by auto
  moreover have "\<forall>j i. cmp i j \<and> (j, i) \<notin> M\<inverse> \<longrightarrow>
        (\<exists>i'<i. (j, i') \<in> M\<inverse>) \<or> (\<exists>j'<j. (j', i) \<in> M\<inverse>)" using 4 by auto
  ultimately show ?thesis unfolding stableMatching_def by blast
qed

lemma stableMatchingD:
  assumes "stableMatching cmp M"
  shows "(i, j) \<in> M \<Longrightarrow> cmp i j"
    and "(i, j) \<in> M \<Longrightarrow> (i, j') \<in> M \<Longrightarrow> j = j'"
    and "(i, j) \<in> M \<Longrightarrow> (i', j) \<in> M \<Longrightarrow> i = i'"
    and "cmp i j \<Longrightarrow> (i, j) \<notin> M \<Longrightarrow> (\<exists>j'<j. (i, j') \<in> M) \<or> (\<exists>i'<i. (i', j) \<in> M)"
  using assms unfolding stableMatching_def by blast+

lemma stable_step:
  assumes M: "stableMatching cmp M" and M': "stableMatching cmp M'"
    and IH: "\<forall>i'<i. \<forall>j. ((i', j) \<in> M) = ((i', j) \<in> M')"
    and ij: "(i, j) \<in> M"
  shows "(i, j) \<in> M'"
proof (rule ccontr)
  assume not: "(i, j) \<notin> M'"
  from M ij have "cmp i j" by (rule stableMatchingD(1))
  with M' have "(\<exists>j'<j. (i, j') \<in> M') \<or> (\<exists>i'<i. (i', j) \<in> M')"
    using not by (rule stableMatchingD(4))
  then show False
  proof
    assume "\<exists>j'<j. (i, j') \<in> M'"
    then obtain j' where j': "j' < j" "(i, j') \<in> M'" by blast
    have notM: "(i, j') \<notin> M"
    proof
      assume "(i, j') \<in> M"
      with M ij have "j = j'" by (rule stableMatchingD(2))
      with j'(1) show False by simp
    qed
    from M' j'(2) have "cmp i j'" by (rule stableMatchingD(1))
    with M have "(\<exists>j''<j'. (i, j'') \<in> M) \<or> (\<exists>i'<i. (i', j') \<in> M)"
      using notM by (rule stableMatchingD(4))
    then show False
    proof
      assume "\<exists>j''<j'. (i, j'') \<in> M"
      then obtain j'' where j'': "j'' < j'" "(i, j'') \<in> M" by blast
      from M ij j''(2) have "j = j''" by (rule stableMatchingD(2))
      with j'(1) j''(1) show False by simp
    next
      assume "\<exists>i'<i. (i', j') \<in> M"
      then obtain i' where i': "i' < i" "(i', j') \<in> M" by blast
      with IH have "(i', j') \<in> M'" by blast
      with M' j'(2) have "i = i'" by (rule stableMatchingD(3))
      with i'(1) show False by simp
    qed
  next
    assume "\<exists>i'<i. (i', j) \<in> M'"
    then obtain i' where i': "i' < i" "(i', j) \<in> M'" by blast
    with IH have "(i', j) \<in> M" by blast
    with M ij have "i = i'" by (rule stableMatchingD(3))
    with i'(1) show False by simp
  qed
qed

lemma stable_unique:
  assumes "stableMatching cmp M" "stableMatching cmp M'"
  shows "M = M'"
proof -
  have "\<forall>j. ((i, j) \<in> M) = ((i, j) \<in> M')" for i
  proof (induction i rule: less_induct)
    case (less i)
    then have IH: "\<forall>i'<i. \<forall>j. ((i', j) \<in> M) = ((i', j) \<in> M')" by blast
    then have IH': "\<forall>i'<i. \<forall>j. ((i', j) \<in> M') = ((i', j) \<in> M)" by blast
    show ?case
      using stable_step [OF assms IH] stable_step [OF assms(2,1) IH'] by blast
  qed
  then show ?thesis by auto
qed

lemma findMatch_first:
  "findMatch s2 m2 c js = Some j \<Longrightarrow> sorted js \<Longrightarrow> j' \<in> set js \<Longrightarrow> j' < j \<Longrightarrow>
     m2 ! j' \<or> c \<noteq> s2 ! j'"
proof (induction js)
  case Nil
  then show ?case by simp
next
  case (Cons x xs)
  show ?case
  proof (cases "m2 ! x \<or> c \<noteq> s2 ! x")
    case True
    with Cons.prems(1) have rec: "findMatch s2 m2 c xs = Some j" by simp
    show ?thesis
    proof (cases "j' = x")
      case True
      with \<open>m2 ! x \<or> c \<noteq> s2 ! x\<close> show ?thesis by simp
    next
      case False
      with Cons.prems have "j' \<in> set xs" "sorted xs" by simp_all
      with Cons.IH rec Cons.prems(4) show ?thesis by blast
    qed
  next
    case False
    with Cons.prems(1) have "j = x" by simp
    with Cons.prems(2,3,4) have False by auto
    then show ?thesis ..
  qed
qed

lemma matchingInvariantD:
  assumes "matchingInvariant s1 s2 w k st M"
  shows "i < length s1 \<Longrightarrow> s1Matches st ! i = (\<exists>j. (i, j) \<in> M)"
    and "j < length s2 \<Longrightarrow> s2Matches st ! j = (\<exists>i. (i, j) \<in> M)"
    and "(i, j) \<in> M \<Longrightarrow> i < k"
    and "(i, j) \<in> M \<Longrightarrow> compatible s1 s2 w i j"
    and "(i, j) \<in> M \<Longrightarrow> (i, j') \<in> M \<Longrightarrow> j = j'"
    and "(i, j) \<in> M \<Longrightarrow> (i', j) \<in> M \<Longrightarrow> i = i'"
    and "i < k \<Longrightarrow> compatible s1 s2 w i j \<Longrightarrow> (i, j) \<notin> M \<Longrightarrow>
           (\<exists>j'<j. (i, j') \<in> M) \<or> (\<exists>i'<i. (i', j) \<in> M)"
  using assms unfolding matchingInvariant_def by blast+

lemma matchingInvariantI:
  assumes "\<And>i. i < length s1 \<Longrightarrow> s1Matches st ! i = (\<exists>j. (i, j) \<in> M)"
    and "\<And>j. j < length s2 \<Longrightarrow> s2Matches st ! j = (\<exists>i. (i, j) \<in> M)"
    and "\<And>i j. (i, j) \<in> M \<Longrightarrow> i < k \<and> compatible s1 s2 w i j"
    and "\<And>i j j'. (i, j) \<in> M \<Longrightarrow> (i, j') \<in> M \<Longrightarrow> j = j'"
    and "\<And>i i' j. (i, j) \<in> M \<Longrightarrow> (i', j) \<in> M \<Longrightarrow> i = i'"
    and "\<And>i j. i < k \<Longrightarrow> compatible s1 s2 w i j \<Longrightarrow> (i, j) \<notin> M \<Longrightarrow>
           (\<exists>j'<j. (i, j') \<in> M) \<or> (\<exists>i'<i. (i', j) \<in> M)"
  shows "matchingInvariant s1 s2 w k st M"
  unfolding matchingInvariant_def using assms by blast

lemma compatible_window:
  "compatible s1 s2 w i j \<Longrightarrow> j \<in> set [windowStart w i ..< windowEnd w (length s2) i]"
  by (simp add: compatible_def)

lemma matchStep_matching_none:
  assumes inv: "matchingInvariant s1 s2 w k st M"
    and none: "findMatch s2 (s2Matches st) (s1 ! k)
                 [windowStart w k ..< windowEnd w (length s2) k] = None"
  shows "matchingInvariant s1 s2 w (Suc k) st M"
proof (rule matchingInvariantI)
  fix i assume "i < length s1"
  then show "s1Matches st ! i = (\<exists>j. (i, j) \<in> M)" by (rule matchingInvariantD(1) [OF inv])
next
  fix j assume "j < length s2"
  then show "s2Matches st ! j = (\<exists>i. (i, j) \<in> M)" by (rule matchingInvariantD(2) [OF inv])
next
  fix i j assume "(i, j) \<in> M"
  then have "i < k" "compatible s1 s2 w i j"
    by (rule matchingInvariantD(3) [OF inv], rule matchingInvariantD(4) [OF inv])
  then show "i < Suc k \<and> compatible s1 s2 w i j" by simp
next
  fix i j j' assume "(i, j) \<in> M" "(i, j') \<in> M"
  then show "j = j'" by (rule matchingInvariantD(5) [OF inv])
next
  fix i i' j assume "(i, j) \<in> M" "(i', j) \<in> M"
  then show "i = i'" by (rule matchingInvariantD(6) [OF inv])
next
  fix i j
  assume i: "i < Suc k" and cmp: "compatible s1 s2 w i j" and not: "(i, j) \<notin> M"
  show "(\<exists>j'<j. (i, j') \<in> M) \<or> (\<exists>i'<i. (i', j) \<in> M)"
  proof (cases "i = k")
    case False
    with i have "i < k" by simp
    then show ?thesis using cmp not by (rule matchingInvariantD(7) [OF inv])
  next
    case True
    from cmp have "j \<in> set [windowStart w i ..< windowEnd w (length s2) i]"
      by (rule compatible_window)
    with none True have "s2Matches st ! j \<or> s1 ! k \<noteq> s2 ! j"
      by (intro findMatch_None [where js = "[windowStart w k ..< windowEnd w (length s2) k]"]) simp_all
    moreover from cmp True have "s1 ! k = s2 ! j" "j < length s2" by (simp_all add: compatible_def)
    ultimately have "s2Matches st ! j" by simp
    with \<open>j < length s2\<close> obtain i' where i': "(i', j) \<in> M"
      using matchingInvariantD(2) [OF inv] by blast
    then have "i' < k" by (rule matchingInvariantD(3) [OF inv])
    with i' True show ?thesis by blast
  qed
qed

lemma matchStep_matching_some:
  assumes basic: "matchInvariant s1 s2 k st"
    and inv: "matchingInvariant s1 s2 w k st M"
    and k: "k < length s1"
    and some: "findMatch s2 (s2Matches st) (s1 ! k)
                 [windowStart w k ..< windowEnd w (length s2) k] = Some j"
  shows "matchingInvariant s1 s2 w (Suc k)
           \<lparr>s1Matches = (s1Matches st)[k := True], s2Matches = (s2Matches st)[j := True],
            matches = matches st + 1\<rparr>
           (insert (k, j) M)"
proof -
  from basic have l1: "length (s1Matches st) = length s1" and l2: "length (s2Matches st) = length s2"
    by (simp_all add: matchInvariant_def)
  from findMatch_Some [OF some]
  have jw: "j \<in> set [windowStart w k ..< windowEnd w (length s2) k]"
    and nj: "\<not> s2Matches st ! j" and eq: "s1 ! k = s2 ! j" by simp_all
  from jw windowEnd_le [of w "length s2" k] have jl: "j < length s2" by simp
  from jw jl eq k have cmp: "compatible s1 s2 w k j" by (simp add: compatible_def)
  have nok: "(k, j') \<notin> M" for j'
    using matchingInvariantD(3) [OF inv, of k j'] by blast
  have noj: "(i', j) \<notin> M" for i'
    using matchingInvariantD(2) [OF inv jl] nj by blast
  show ?thesis
  proof (rule matchingInvariantI)
    fix i assume i: "i < length s1"
    show "s1Matches \<lparr>s1Matches = (s1Matches st)[k := True], s2Matches = (s2Matches st)[j := True],
            matches = matches st + 1\<rparr> ! i = (\<exists>j'. (i, j') \<in> insert (k, j) M)"
    proof (cases "i = k")
      case True
      with k l1 show ?thesis by auto
    next
      case False
      with matchingInvariantD(1) [OF inv i] show ?thesis by simp
    qed
  next
    fix j' assume j': "j' < length s2"
    show "s2Matches \<lparr>s1Matches = (s1Matches st)[k := True], s2Matches = (s2Matches st)[j := True],
            matches = matches st + 1\<rparr> ! j' = (\<exists>i. (i, j') \<in> insert (k, j) M)"
    proof (cases "j' = j")
      case True
      with jl l2 show ?thesis by auto
    next
      case False
      with matchingInvariantD(2) [OF inv j'] show ?thesis by simp
    qed
  next
    fix i j' assume "(i, j') \<in> insert (k, j) M"
    then consider "i = k" "j' = j" | "(i, j') \<in> M" by auto
    then show "i < Suc k \<and> compatible s1 s2 w i j'"
    proof cases
      case 1
      with cmp show ?thesis by simp
    next
      case 2
      then have "i < k" "compatible s1 s2 w i j'"
        by (rule matchingInvariantD(3) [OF inv], rule matchingInvariantD(4) [OF inv])
      then show ?thesis by simp
    qed
  next
    fix i j' j'' assume a: "(i, j') \<in> insert (k, j) M" "(i, j'') \<in> insert (k, j) M"
    show "j' = j''"
    proof (cases "i = k")
      case True
      with a nok show ?thesis by auto
    next
      case False
      with a have "(i, j') \<in> M" "(i, j'') \<in> M" by auto
      then show ?thesis by (rule matchingInvariantD(5) [OF inv])
    qed
  next
    fix i i' j' assume a: "(i, j') \<in> insert (k, j) M" "(i', j') \<in> insert (k, j) M"
    show "i = i'"
    proof (cases "j' = j")
      case True
      with a noj show ?thesis by auto
    next
      case False
      with a have "(i, j') \<in> M" "(i', j') \<in> M" by auto
      then show ?thesis by (rule matchingInvariantD(6) [OF inv])
    qed
  next
    fix i j'
    assume i: "i < Suc k" and c: "compatible s1 s2 w i j'" and not: "(i, j') \<notin> insert (k, j) M"
    show "(\<exists>j''<j'. (i, j'') \<in> insert (k, j) M) \<or> (\<exists>i'<i. (i', j') \<in> insert (k, j) M)"
    proof (cases "i = k")
      case False
      with i have "i < k" by simp
      moreover from not have "(i, j') \<notin> M" by simp
      ultimately have "(\<exists>j''<j'. (i, j'') \<in> M) \<or> (\<exists>i'<i. (i', j') \<in> M)"
        using c by (intro matchingInvariantD(7) [OF inv])
      then show ?thesis by blast
    next
      case True
      with not have ne: "j' \<noteq> j" by auto
      show ?thesis
      proof (cases "j' < j")
        case False
        with ne have "j < j'" by simp
        with True show ?thesis by blast
      next
        case lt: True
        from c True have "j' \<in> set [windowStart w k ..< windowEnd w (length s2) k]"
          by (auto dest: compatible_window)
        with some lt have "s2Matches st ! j' \<or> s1 ! k \<noteq> s2 ! j'"
          by (intro findMatch_first [where js = "[windowStart w k ..< windowEnd w (length s2) k]" and j = j])
             simp_all
        moreover from c True have "s1 ! k = s2 ! j'" "j' < length s2"
          by (simp_all add: compatible_def)
        ultimately have "s2Matches st ! j'" by simp
        with \<open>j' < length s2\<close> obtain i' where i': "(i', j') \<in> M"
          using matchingInvariantD(2) [OF inv] by blast
        then have "i' < k" by (rule matchingInvariantD(3) [OF inv])
        with i' True show ?thesis by blast
      qed
    qed
  qed
qed

lemma matchStep_matching:
  assumes basic: "matchInvariant s1 s2 k st"
    and inv: "matchingInvariant s1 s2 w k st M"
    and k: "k < length s1"
  shows "\<exists>M'. matchingInvariant s1 s2 w (Suc k) (matchStep s1 s2 w st k) M'"
proof (cases "findMatch s2 (s2Matches st) (s1 ! k)
                [windowStart w k ..< windowEnd w (length s2) k]")
  case None
  with inv have "matchingInvariant s1 s2 w (Suc k) st M" by (intro matchStep_matching_none)
  with None show ?thesis by (auto simp: matchStep_def)
next
  case (Some j)
  with assms have "matchingInvariant s1 s2 w (Suc k)
           \<lparr>s1Matches = (s1Matches st)[k := True], s2Matches = (s2Matches st)[j := True],
            matches = matches st + 1\<rparr>
           (insert (k, j) M)" by (intro matchStep_matching_some)
  with Some show ?thesis by (auto simp: matchStep_def)
qed

lemma findMatches_prefix_matching:
  "k \<le> length s1 \<Longrightarrow>
   \<exists>M. matchingInvariant s1 s2 w k
     (foldl (matchStep s1 s2 w)
        \<lparr>s1Matches = replicate (length s1) False, s2Matches = replicate (length s2) False,
         matches = 0\<rparr> [0 ..< k]) M"
proof (induction k)
  case 0
  have "matchingInvariant s1 s2 w 0
     \<lparr>s1Matches = replicate (length s1) False, s2Matches = replicate (length s2) False,
      matches = 0\<rparr> {}"
    by (rule matchingInvariantI) simp_all
  then show ?case by auto
next
  case (Suc k)
  let ?st = "foldl (matchStep s1 s2 w)
        \<lparr>s1Matches = replicate (length s1) False, s2Matches = replicate (length s2) False,
         matches = 0\<rparr> [0 ..< k]"
  from Suc obtain M where M: "matchingInvariant s1 s2 w k ?st M" by auto
  from Suc.prems have "matchInvariant s1 s2 k ?st" by (intro findMatches_prefix_invariant) simp
  from matchStep_matching [OF this M] Suc.prems show ?case by simp
qed

lemma findMatches_stable:
  "\<exists>M. stableMatching (compatible s1 s2 w) M \<and>
       (\<forall>i<length s1. s1Matches (findMatches s1 s2 w) ! i = (\<exists>j. (i, j) \<in> M)) \<and>
       (\<forall>j<length s2. s2Matches (findMatches s1 s2 w) ! j = (\<exists>i. (i, j) \<in> M))"
proof -
  from findMatches_prefix_matching [of "length s1" s1 s2 w]
  obtain M where inv: "matchingInvariant s1 s2 w (length s1) (findMatches s1 s2 w) M"
    by (auto simp: findMatches_def)
  have "stableMatching (compatible s1 s2 w) M"
    unfolding stableMatching_def
  proof (intro conjI allI impI)
    fix i j assume "(i, j) \<in> M"
    then show "compatible s1 s2 w i j" by (rule matchingInvariantD(4) [OF inv])
  next
    fix i j j' assume "(i, j) \<in> M \<and> (i, j') \<in> M"
    then show "j = j'" using matchingInvariantD(5) [OF inv] by blast
  next
    fix i i' j assume "(i, j) \<in> M \<and> (i', j) \<in> M"
    then show "i = i'" using matchingInvariantD(6) [OF inv] by blast
  next
    fix i j assume a: "compatible s1 s2 w i j \<and> (i, j) \<notin> M"
    then have "i < length s1" by (simp add: compatible_def)
    with a show "(\<exists>j'<j. (i, j') \<in> M) \<or> (\<exists>i'<i. (i', j) \<in> M)"
      using matchingInvariantD(7) [OF inv] by blast
  qed
  with matchingInvariantD(1,2) [OF inv] show ?thesis by blast
qed

subsection \<open>Symmetry of the score\<close>

lemma findMatches_swap:
  "s1Matches (findMatches b a w) = s2Matches (findMatches a b w) \<and>
   s2Matches (findMatches b a w) = s1Matches (findMatches a b w) \<and>
   matches (findMatches b a w) = matches (findMatches a b w)"
proof -
  from findMatches_stable [of a b w] obtain M where
    M: "stableMatching (compatible a b w) M"
    and M1: "\<forall>i<length a. s1Matches (findMatches a b w) ! i = (\<exists>j. (i, j) \<in> M)"
    and M2: "\<forall>j<length b. s2Matches (findMatches a b w) ! j = (\<exists>i. (i, j) \<in> M)"
    by blast
  from findMatches_stable [of b a w] obtain N where
    N: "stableMatching (compatible b a w) N"
    and N1: "\<forall>j<length b. s1Matches (findMatches b a w) ! j = (\<exists>i. (j, i) \<in> N)"
    and N2: "\<forall>i<length a. s2Matches (findMatches b a w) ! i = (\<exists>j. (j, i) \<in> N)"
    by blast
  have "(\<lambda>i j. compatible b a w j i) = compatible a b w"
    by (intro ext) (simp add: compatible_sym [of a b])
  with stableMatching_converse [OF N] have "stableMatching (compatible a b w) (N\<inverse>)" by simp
  with M have MN: "M = N\<inverse>" by (rule stable_unique)
  have ia: "matchInvariant a b (length a) (findMatches a b w)"
    and ib: "matchInvariant b a (length b) (findMatches b a w)"
    by (rule findMatches_invariant)+
  have s1: "s1Matches (findMatches b a w) = s2Matches (findMatches a b w)"
  proof (rule nth_equalityI)
    show "length (s1Matches (findMatches b a w)) = length (s2Matches (findMatches a b w))"
      using ia ib by (simp add: matchInvariant_def)
  next
    fix j assume "j < length (s1Matches (findMatches b a w))"
    with ib have "j < length b" by (simp add: matchInvariant_def)
    with N1 M2 MN show "s1Matches (findMatches b a w) ! j = s2Matches (findMatches a b w) ! j"
      by simp
  qed
  have s2: "s2Matches (findMatches b a w) = s1Matches (findMatches a b w)"
  proof (rule nth_equalityI)
    show "length (s2Matches (findMatches b a w)) = length (s1Matches (findMatches a b w))"
      using ia ib by (simp add: matchInvariant_def)
  next
    fix i assume "i < length (s2Matches (findMatches b a w))"
    with ib have "i < length a" by (simp add: matchInvariant_def)
    with N2 M1 MN show "s2Matches (findMatches b a w) ! i = s1Matches (findMatches a b w) ! i"
      by simp
  qed
  from ia ib have "matches (findMatches b a w) = trues (s1Matches (findMatches b a w))"
    "matches (findMatches a b w) = trues (s2Matches (findMatches a b w))"
    by (simp_all add: matchInvariant_def)
  with s1 s2 show ?thesis by simp
qed

lemma mismatches_commute: "mismatches (zip A B) = mismatches (zip B A)"
proof (induction A arbitrary: B)
  case Nil
  then show ?case by (simp add: mismatches_def)
next
  case (Cons x A)
  then show ?case by (cases B) (auto simp: mismatches_def)
qed

lemma commonPrefix_commute: "commonPrefix s1 s2 is p = commonPrefix s2 s1 is p"
  by (induction "is" arbitrary: p) auto

lemma winklerScore_commute: "winklerScore m len1 len2 t p = winklerScore m len2 len1 t p"
  by (simp add: winklerScore_def add.commute)

text \<open>
  C7 (the score is symmetric). The greedy match search from either string finds the same
  pairs: its result is the one stable matching of the indices, and that notion does not
  depend on the side the search walks. So the flags, the matches and the transpositions are
  the same, and so is the score.
\<close>

theorem jaroWinkler_symmetric: "jaroWinkler a b = jaroWinkler b a"
proof (cases "a = b \<or> a = [] \<or> b = []")
  case True
  then show ?thesis by (auto simp: jaroWinkler_def)
next
  case False
  define w where "w = int (max (length a) (length b) div 2) - 1"
  have w': "w = int (max (length b) (length a) div 2) - 1" by (simp add: w_def max.commute)
  define st where "st = findMatches a b w"
  define st' where "st' = findMatches b a w"
  from findMatches_swap [of b a w]
  have sw: "s1Matches st' = s2Matches st" "s2Matches st' = s1Matches st" "matches st' = matches st"
    by (simp_all add: st_def st'_def)
  from False have ab: "jaroWinkler a b =
           (if matches st = 0 then Some 0
            else Some (winklerScore (matches st) (length a) (length b)
                   (mismatches (zip (matchedPrefix a (s1Matches st) (length a))
                                    (matchedPrefix b (s2Matches st) (length b))))
                   (commonPrefix a b [0 ..< min 4 (min (length a) (length b))] 0)))"
    by (intro jaroWinkler_unfold) (simp_all add: st_def w_def)
  from False have ba: "jaroWinkler b a =
           (if matches st' = 0 then Some 0
            else Some (winklerScore (matches st') (length b) (length a)
                   (mismatches (zip (matchedPrefix b (s1Matches st') (length b))
                                    (matchedPrefix a (s2Matches st') (length a))))
                   (commonPrefix b a [0 ..< min 4 (min (length b) (length a))] 0)))"
    by (intro jaroWinkler_unfold) (auto simp: st'_def w')
  have "min 4 (min (length b) (length a)) = min 4 (min (length a) (length b))"
    by (simp add: min.commute)
  then show ?thesis
    unfolding ab ba sw
    by (simp add: mismatches_commute [of "matchedPrefix b (s2Matches st) (length b)"]
        commonPrefix_commute [of b a] winklerScore_commute [of _ "length b"])
qed

subsection \<open>The range and the symmetry of the rounded score\<close>

lemma roundingD:
  assumes "rounding rnd"
  shows "x \<le> y \<Longrightarrow> rnd x \<le> rnd y"
    and "rnd (rnd x) = rnd x"
    and "n < 2 ^ 53 \<Longrightarrow> rnd (real n) = real n"
    and "rnd (1 / 2) = 1 / 2"
    and "rnd (1 / 8) = 1 / 8"
    and "rnd x = x \<Longrightarrow> 1 / 2 \<le> x \<Longrightarrow> x \<le> 1 \<Longrightarrow> rnd (1 - x) = 1 - x"
  using assms unfolding rounding_def by blast+

lemma rounding_consts:
  assumes "rounding rnd"
  shows "rnd 0 = 0" "rnd 1 = 1" "rnd 2 = 2" "rnd 3 = 3"
  using roundingD(3) [OF assms, of 0] roundingD(3) [OF assms, of 1]
    roundingD(3) [OF assms, of 2] roundingD(3) [OF assms, of 3]
  by simp_all

lemma rounding_between:
  assumes "rounding rnd" and "rnd lo = lo" and "rnd hi = hi" and "lo \<le> x" and "x \<le> hi"
  shows "lo \<le> rnd x \<and> rnd x \<le> hi"
  using roundingD(1) [OF assms(1), of lo x] roundingD(1) [OF assms(1), of x hi] assms(2-5)
  by simp

lemma roundedScore_range:
  assumes r: "rounding rnd"
    and m: "0 < m" "m \<le> len1" "m \<le> len2" "m < 2 ^ 53" and t: "t \<le> m" and p: "p \<le> 4"
  shows "0 \<le> rnd (real m - rnd (real t / 2)) \<and>
         0 \<le> roundedScore rnd m len1 len2 t p \<and> roundedScore rnd m len1 len2 t p \<le> 1"
proof -
  note c = rounding_consts [OF r]
  have rm: "rnd (real m) = real m" using m(4) by (rule roundingD(3) [OF r])
  define a where "a = rnd (real m / real len1)"
  define b where "b = rnd (real m / real len2)"
  define h where "h = rnd (real t / 2)"
  define n where "n = rnd (real m - h)"
  define cc where "cc = rnd (n / real m)"
  define s1 where "s1 = rnd (a + b)"
  define s2 where "s2 = rnd (s1 + cc)"
  define jaro where "jaro = rnd (s2 / 3)"
  define q where "q = rnd (real p * rnd (1 / 10))"
  define d where "d = rnd (1 - jaro)"
  define pr where "pr = rnd (q * d)"
  have a: "0 \<le> a \<and> a \<le> 1" unfolding a_def
    using r c(1,2) m by (intro rounding_between) (simp_all add: divide_le_eq_1)
  have b: "0 \<le> b \<and> b \<le> 1" unfolding b_def
    using r c(1,2) m by (intro rounding_between) (simp_all add: divide_le_eq_1)
  have h: "0 \<le> h \<and> h \<le> real m" unfolding h_def
    using r c(1) rm t by (intro rounding_between) simp_all
  have n: "0 \<le> n \<and> n \<le> real m" unfolding n_def
    using r c(1) rm h by (intro rounding_between) simp_all
  have cc: "0 \<le> cc \<and> cc \<le> 1" unfolding cc_def
    using r c(1,2) n m(1) by (intro rounding_between) (simp_all add: divide_le_eq_1)
  have s1: "0 \<le> s1 \<and> s1 \<le> 2" unfolding s1_def
    using r c(1,3) a b by (intro rounding_between) simp_all
  have s2: "0 \<le> s2 \<and> s2 \<le> 3" unfolding s2_def
    using r c(1,4) s1 cc by (intro rounding_between) simp_all
  have jaro: "0 \<le> jaro \<and> jaro \<le> 1" unfolding jaro_def
    using r c(1,2) s2 by (intro rounding_between) simp_all
  have jaro_fix: "rnd jaro = jaro" unfolding jaro_def by (rule roundingD(2) [OF r])
  have tenth: "0 \<le> rnd (1 / 10) \<and> rnd (1 / 10) \<le> 1 / 8"
    using r c(1) roundingD(5) [OF r] by (intro rounding_between) simp_all
  have "real p * rnd (1 / 10) \<le> 4 * (1 / 8)"
    using p tenth by (intro mult_mono) simp_all
  then have pq: "real p * rnd (1 / 10) \<le> 1 / 2" by simp
  have q: "0 \<le> q \<and> q \<le> 1 / 2" unfolding q_def
    using r c(1) roundingD(4) [OF r] tenth pq by (intro rounding_between) simp_all
  have d: "0 \<le> d \<and> d \<le> 1" unfolding d_def
    using r c(1,2) jaro by (intro rounding_between) simp_all
  have d_fix: "rnd d = d" unfolding d_def by (rule roundingD(2) [OF r])
  have qd0: "0 \<le> q * d" using q d by simp
  then have pr0: "0 \<le> pr" unfolding pr_def
    using roundingD(1) [OF r, of 0 "q * d"] c(1) by simp
  have sum: "jaro + pr \<le> 1"
  proof (cases "1 / 2 \<le> jaro")
    case True
    with jaro jaro_fix have "d = 1 - jaro" unfolding d_def
      by (intro roundingD(6) [OF r]) simp_all
    moreover have "q * d \<le> 1 * d" using q d by (intro mult_right_mono) simp_all
    then have "pr \<le> d" unfolding pr_def
      using roundingD(1) [OF r, of "q * d" d] d_fix by simp
    ultimately show ?thesis by simp
  next
    case False
    have "q * d \<le> (1 / 2) * 1" using q d by (intro mult_mono) simp_all
    then have "pr \<le> 1 / 2" unfolding pr_def
      using roundingD(1) [OF r, of "q * d" "1 / 2"] roundingD(4) [OF r] by simp
    with False show ?thesis by simp
  qed
  have res: "0 \<le> rnd (jaro + pr) \<and> rnd (jaro + pr) \<le> 1"
    using r c(1,2) jaro pr0 sum by (intro rounding_between) simp_all
  have "roundedScore rnd m len1 len2 t p = rnd (jaro + pr)"
    by (simp add: roundedScore_def Let_def jaro_def s2_def s1_def cc_def n_def h_def a_def b_def
        pr_def q_def d_def)
  with res n show ?thesis by (simp add: n_def h_def)
qed

lemma truncate53_grid: "truncate53 (real_of_int k / 2 ^ 53) = real_of_int k / 2 ^ 53"
  by (simp add: truncate53_def)

lemma truncate53_rounding: "rounding truncate53"
  unfolding rounding_def
proof (intro conjI allI impI)
  fix x y :: real assume "x \<le> y"
  then have "\<lfloor>x * 2 ^ 53\<rfloor> \<le> \<lfloor>y * 2 ^ 53\<rfloor>" by (intro floor_mono) simp
  then show "truncate53 x \<le> truncate53 y"
    by (simp add: truncate53_def divide_right_mono)
next
  fix x
  show "truncate53 (truncate53 x) = truncate53 x"
    unfolding truncate53_def [of x] by (rule truncate53_grid)
next
  fix n :: nat
  have "real n = real_of_int (int n * 2 ^ 53) / 2 ^ 53" by simp
  then show "truncate53 (real n) = real n" by (metis truncate53_grid)
next
  have "(1 / 2 :: real) = real_of_int (2 ^ 52) / 2 ^ 53" by simp
  then show "truncate53 (1 / 2) = 1 / 2" by (metis truncate53_grid)
next
  have "(1 / 8 :: real) = real_of_int (2 ^ 50) / 2 ^ 53" by simp
  then show "truncate53 (1 / 8) = 1 / 8" by (metis truncate53_grid)
next
  fix x assume a: "truncate53 x = x \<and> 1 / 2 \<le> x \<and> x \<le> 1"
  define k where "k = \<lfloor>x * 2 ^ 53\<rfloor>"
  from a have "truncate53 x = x" by blast
  then have x: "x = real_of_int k / 2 ^ 53" unfolding truncate53_def k_def by (rule sym)
  have "1 - real_of_int k / 2 ^ 53 = real_of_int (2 ^ 53 - k) / 2 ^ 53"
    by (simp add: diff_divide_distrib)
  then have "truncate53 (1 - real_of_int k / 2 ^ 53) = 1 - real_of_int k / 2 ^ 53"
    by (metis truncate53_grid)
  then show "truncate53 (1 - x) = 1 - x" unfolding x .
qed

lemma jaroWinklerRounded_unfold:
  assumes "s1 \<noteq> s2" "s1 \<noteq> []" "s2 \<noteq> []"
    and st: "st = findMatches s1 s2 (int (max (length s1) (length s2) div 2) - 1)"
  shows "jaroWinklerRounded rnd s1 s2 =
           (if matches st = 0 then Some 0
            else Some (roundedScore rnd (matches st) (length s1) (length s2)
                   (mismatches (zip (matchedPrefix s1 (s1Matches st) (length s1))
                                    (matchedPrefix s2 (s2Matches st) (length s2))))
                   (commonPrefix s1 s2 [0 ..< min 4 (min (length s1) (length s2))] 0)))"
proof -
  have inv: "matchInvariant s1 s2 (length s1) st"
    unfolding st by (rule findMatches_invariant)
  then have "length s1 = length (s1Matches st)" "length s2 = length (s2Matches st)"
    "trues (s1Matches st) = trues (s2Matches st)"
    by (simp_all add: matchInvariant_def)
  from countTranspositions_returns [OF this] obtain k where
    "countTranspositions s1 s2 (s1Matches st) (s2Matches st) =
       Some (k, mismatches (zip (matchedPrefix s1 (s1Matches st) (length s1))
                                (matchedPrefix s2 (s2Matches st) (length s2))))" ..
  with assms(1-3) show ?thesis
    unfolding jaroWinklerRounded_def st [symmetric] Let_def roundedScore_def
    by (simp add: st [symmetric])
qed

lemma jaroWinklerRounded_exact: "jaroWinklerRounded (\<lambda>x. x) s1 s2 = jaroWinkler s1 s2"
  by (simp add: jaroWinklerRounded_def jaroWinkler_def)

lemma roundedScore_commute:
  "roundedScore rnd m len1 len2 t p = roundedScore rnd m len2 len1 t p"
  by (simp add: roundedScore_def add.commute)

lemma jaroWinklerRounded_commute: "jaroWinklerRounded rnd a b = jaroWinklerRounded rnd b a"
proof (cases "a = b \<or> a = [] \<or> b = []")
  case True
  then show ?thesis by (auto simp: jaroWinklerRounded_def)
next
  case False
  define w where "w = int (max (length a) (length b) div 2) - 1"
  have w': "w = int (max (length b) (length a) div 2) - 1" by (simp add: w_def max.commute)
  define st where "st = findMatches a b w"
  define st' where "st' = findMatches b a w"
  from findMatches_swap [of b a w]
  have sw: "s1Matches st' = s2Matches st" "s2Matches st' = s1Matches st" "matches st' = matches st"
    by (simp_all add: st_def st'_def)
  from False have ab: "jaroWinklerRounded rnd a b =
           (if matches st = 0 then Some 0
            else Some (roundedScore rnd (matches st) (length a) (length b)
                   (mismatches (zip (matchedPrefix a (s1Matches st) (length a))
                                    (matchedPrefix b (s2Matches st) (length b))))
                   (commonPrefix a b [0 ..< min 4 (min (length a) (length b))] 0)))"
    by (intro jaroWinklerRounded_unfold) (simp_all add: st_def w_def)
  from False have ba: "jaroWinklerRounded rnd b a =
           (if matches st' = 0 then Some 0
            else Some (roundedScore rnd (matches st') (length b) (length a)
                   (mismatches (zip (matchedPrefix b (s1Matches st') (length b))
                                    (matchedPrefix a (s2Matches st') (length a))))
                   (commonPrefix b a [0 ..< min 4 (min (length b) (length a))] 0)))"
    by (intro jaroWinklerRounded_unfold) (auto simp: st'_def w')
  have "min 4 (min (length b) (length a)) = min 4 (min (length a) (length b))"
    by (simp add: min.commute)
  then show ?thesis
    unfolding ab ba sw
    by (simp add: mismatches_commute [of "matchedPrefix b (s2Matches st) (length b)"]
        commonPrefix_commute [of b a] roundedScore_commute [of _ _ "length b"])
qed

text \<open>
  C6 (the score lies in the closed interval from 0 to 1). With every floating-point operation
  rounded, for every rounding function with the properties \<open>rounding\<close> and every two
  strings of lengths a double holds, \<^verbatim>\<open>jaroWinkler\<close> returns, and what it returns is at least
  0 and at most 1. The transpositions are at most the matches, so the matches minus half the
  transpositions, as computed, are not negative; and the prefix bonus does not push the
  result above 1: when \<open>jaro\<close> is at least \<open>1/2\<close> the difference \<open>1 - jaro\<close> is exact and the
  bonus is at most that difference, otherwise the bonus is at most \<open>1/2\<close>.
\<close>

theorem jaroWinkler_rounded_in_unit_interval:
  assumes r: "rounding rnd" and la: "length a < 2 ^ 53" and lb: "length b < 2 ^ 53"
  shows "(\<exists>y. jaroWinklerRounded rnd a b = Some y \<and> 0 \<le> y \<and> y \<le> 1) \<and>
         (\<exists>k t. countTranspositions a b
                   (s1Matches (findMatches a b (int (max (length a) (length b) div 2) - 1)))
                   (s2Matches (findMatches a b (int (max (length a) (length b) div 2) - 1)))
                  = Some (k, t) \<and>
                t \<le> matches (findMatches a b (int (max (length a) (length b) div 2) - 1)) \<and>
                0 \<le> rnd (real (matches (findMatches a b (int (max (length a) (length b) div 2) - 1)))
                         - rnd (real t / 2)))"
proof -
  define st where "st = findMatches a b (int (max (length a) (length b) div 2) - 1)"
  define t where "t = mismatches (zip (matchedPrefix a (s1Matches st) (length a))
                                      (matchedPrefix b (s2Matches st) (length b)))"
  define p where "p = commonPrefix a b [0 ..< min 4 (min (length a) (length b))] 0"
  have inv: "matchInvariant a b (length a) st"
    unfolding st_def by (rule findMatches_invariant)
  then have len: "length a = length (s1Matches st)" "length b = length (s2Matches st)"
    and m: "matches st = trues (s1Matches st)" "matches st = trues (s2Matches st)"
    by (simp_all add: matchInvariant_def)
  from m have "trues (s1Matches st) = trues (s2Matches st)" by simp
  from countTranspositions_returns [OF len this] obtain k where
    ct: "countTranspositions a b (s1Matches st) (s2Matches st) = Some (k, t)"
    unfolding t_def ..
  have m1: "matches st \<le> length a" using m(1) len(1) trues_le_length [of "s1Matches st"] by simp
  have m2: "matches st \<le> length b" using m(2) len(2) trues_le_length [of "s2Matches st"] by simp
  from m1 la have m53: "matches st < 2 ^ 53" by simp
  have "t \<le> length (matchedPrefix a (s1Matches st) (length a))"
    unfolding t_def by (rule mismatches_le)
  also have "\<dots> = matches st" using len(1) m(1) by (simp add: length_matchedPrefix_full)
  finally have t: "t \<le> matches st" .
  have "p \<le> 0 + length [0 ..< min 4 (min (length a) (length b))]"
    unfolding p_def by (rule commonPrefix_le)
  then have p: "p \<le> 4" by simp
  have minus: "0 \<le> rnd (real (matches st) - rnd (real t / 2))"
  proof (cases "matches st = 0")
    case True
    with t rounding_consts(1) [OF r] show ?thesis by simp
  next
    case False
    then have "0 < matches st" by simp
    from roundedScore_range [OF r this m1 m2 m53 t p] show ?thesis by simp
  qed
  have range: "\<exists>y. jaroWinklerRounded rnd a b = Some y \<and> 0 \<le> y \<and> y \<le> 1"
  proof (cases "a = b \<or> a = [] \<or> b = []")
    case True
    then show ?thesis by (auto simp: jaroWinklerRounded_def)
  next
    case False
    with st_def have jw: "jaroWinklerRounded rnd a b =
           (if matches st = 0 then Some 0
            else Some (roundedScore rnd (matches st) (length a) (length b) t p))"
      unfolding t_def p_def by (intro jaroWinklerRounded_unfold) simp_all
    show ?thesis
    proof (cases "matches st = 0")
      case True
      with jw show ?thesis by simp
    next
      case False
      then have "0 < matches st" by simp
      from roundedScore_range [OF r this m1 m2 m53 t p] jw False show ?thesis by simp
    qed
  qed
  from range ct t minus show ?thesis unfolding st_def by blast
qed

theorem jaroWinkler_rounded_in_unit_interval_witness:
  "length [0x61 :: 16 word] < 2 ^ 53 \<and> length [0x61, 0x61, 0x61 :: 16 word] < 2 ^ 53 \<and>
   (\<exists>y. jaroWinklerRounded truncate53 [0x61] [0x61, 0x61, 0x61] = Some y \<and> 0 \<le> y \<and> y \<le> 1)"
proof -
  have la: "length [0x61 :: 16 word] < 2 ^ 53" by simp
  have lb: "length [0x61, 0x61, 0x61 :: 16 word] < 2 ^ 53" by simp
  note jaroWinkler_rounded_in_unit_interval [OF truncate53_rounding la lb]
  then have "\<exists>y. jaroWinklerRounded truncate53 [0x61] [0x61, 0x61, 0x61] = Some y \<and> 0 \<le> y \<and> y \<le> 1"
    by (rule conjunct1)
  with la lb show ?thesis by blast
qed

subsection \<open>The compare handler on two Arabic names\<close>

lemma isArabic_nonempty: "isArabic name \<Longrightarrow> name \<noteq> []"
  by (auto simp: isArabic_def)

lemma normalizeArabicName_soundex:
  assumes "normalizeArabicName name = Inr r" "name \<noteq> []"
  shows "arabicSoundex (filter (\<lambda>c. \<not> isWhitespace c) (normalized r)) = Inr (soundex r)"
  using assms
  by (auto simp: normalizeArabicName_def Let_def split: sum.splits)

lemma compare_returns:
  assumes n1: "normalizeArabicName n1 = Inr norm1" and n2: "normalizeArabicName n2 = Inr norm2"
    and jw: "jaroWinkler (normalized norm1) (normalized norm2) = Some sim"
  shows "compare n1 n2 =
           Returns \<lparr>name1 = norm1, name2 = norm2, soundexMatch = (soundex norm1 = soundex norm2),
                    similarity = sim,
                    matchScore = (if soundex norm1 = soundex norm2 then max sim (85 / 100) else sim)\<rparr>"
  using assms by (simp add: compare_def)

text \<open>
  C4 (two Arabic names). When both names hold an Arabic code unit, the compare handler
  returns; the two names of its answer are the Arabic normalizations, each with the phonetic
  code of its normalized string without white space; the flag is the equality of the two
  codes; the similarity is the Jaro-Winkler score of the two normalized strings; and the
  final score is the larger of the similarity and 0.85 when the codes are equal, the
  similarity otherwise.
\<close>

theorem compare_arabic_pair:
  assumes "isArabic n1" and "isArabic n2"
  shows "\<exists>r. compare n1 n2 = Returns r \<and>
             normalizeArabicName n1 = Inr (name1 r) \<and> normalizeArabicName n2 = Inr (name2 r) \<and>
             arabicSoundex (filter (\<lambda>c. \<not> isWhitespace c) (normalized (name1 r)))
               = Inr (soundex (name1 r)) \<and>
             arabicSoundex (filter (\<lambda>c. \<not> isWhitespace c) (normalized (name2 r)))
               = Inr (soundex (name2 r)) \<and>
             jaroWinkler (normalized (name1 r)) (normalized (name2 r)) = Some (similarity r) \<and>
             soundexMatch r = (soundex (name1 r) = soundex (name2 r)) \<and>
             matchScore r = (if soundex (name1 r) = soundex (name2 r)
                             then max (similarity r) (85 / 100) else similarity r)"
proof -
  from normalizeArabicName_returns obtain norm1 where 1: "normalizeArabicName n1 = Inr norm1"
    by blast
  from normalizeArabicName_returns obtain norm2 where 2: "normalizeArabicName n2 = Inr norm2"
    by blast
  from jaroWinkler_returns obtain sim
    where 3: "jaroWinkler (normalized norm1) (normalized norm2) = Some sim" by blast
  from assms have "n1 \<noteq> []" "n2 \<noteq> []" by (simp_all add: isArabic_nonempty)
  with 1 2 have 4: "arabicSoundex (filter (\<lambda>c. \<not> isWhitespace c) (normalized norm1)) = Inr (soundex norm1)"
    and 5: "arabicSoundex (filter (\<lambda>c. \<not> isWhitespace c) (normalized norm2)) = Inr (soundex norm2)"
    by (simp_all add: normalizeArabicName_soundex)
  from compare_returns [OF 1 2 3] 1 2 3 4 5 show ?thesis by simp
qed

theorem compare_arabic_pair_witness:
  "isArabic [0x0645, 0x062D, 0x0645, 0x062F] \<and> isArabic [0x0645, 0x0647, 0x0645, 0x062A] \<and>
   map_outcome similarity (compare [0x0645, 0x062D, 0x0645, 0x062F] [0x0645, 0x0647, 0x0645, 0x062A])
     = Returns (7 / 10) \<and>
   map_outcome matchScore (compare [0x0645, 0x062D, 0x0645, 0x062F] [0x0645, 0x0647, 0x0645, 0x062A])
     = Returns (17 / 20) \<and>
   (\<exists>r. compare [0x0645, 0x062D, 0x0645, 0x062F] [0x0645, 0x0647, 0x0645, 0x062A] = Returns r \<and>
        soundexMatch r = (soundex (name1 r) = soundex (name2 r)) \<and>
        matchScore r = (if soundex (name1 r) = soundex (name2 r)
                        then max (similarity r) (85 / 100) else similarity r))"
proof -
  have h1: "isArabic [0x0645, 0x062D, 0x0645, 0x062F]" by code_simp
  have h2: "isArabic [0x0645, 0x0647, 0x0645, 0x062A]" by code_simp
  have e1: "map_outcome similarity (compare [0x0645, 0x062D, 0x0645, 0x062F] [0x0645, 0x0647, 0x0645, 0x062A])
     = Returns (7 / 10)" by code_simp
  have e2: "map_outcome matchScore (compare [0x0645, 0x062D, 0x0645, 0x062F] [0x0645, 0x0647, 0x0645, 0x062A])
     = Returns (17 / 20)" by code_simp
  from compare_arabic_pair [OF h1 h2]
  have "\<exists>r. compare [0x0645, 0x062D, 0x0645, 0x062F] [0x0645, 0x0647, 0x0645, 0x062A] = Returns r \<and>
        soundexMatch r = (soundex (name1 r) = soundex (name2 r)) \<and>
        matchScore r = (if soundex (name1 r) = soundex (name2 r)
                        then max (similarity r) (85 / 100) else similarity r)"
    by blast
  with h1 h2 e1 e2 show ?thesis by blast
qed

end
